theory Spec2Isabelle
  imports Main
begin

section \<open>Python classes, values and exceptions\<close>

text \<open>
  The classes that can occur as type hints of an operation function: a subclass of
  \<^verbatim>\<open>State\<close> (with the Plan class stored in its \<^verbatim>\<open>__onward_plan__\<close>
  attribute, absent for \<^verbatim>\<open>State\<close> itself and for classes that derive from it
  directly), a subclass of \<^verbatim>\<open>Plan\<close>, \<^verbatim>\<open>type(None)\<close>, or any other
  class. Hints that are not classes are outside the model.
\<close>

type_synonym plan_id = string

datatype pytype =
    StateCls string "plan_id option"
  | PlanCls plan_id
  | NoneType
  | OtherCls string

text \<open>A node key (\<^verbatim>\<open>type[State] | str\<close>): a class or a function name.\<close>

datatype key = TypeKey pytype | NameKey string

text \<open>
  A run-time value: \<^verbatim>\<open>None\<close>, or an object with its class, the other classes
  it is an instance of, and a payload.
\<close>

datatype pyvalue = PyNone | Instance pytype "pytype list" string

fun issubclass_State :: "pytype \<Rightarrow> bool" where
  "issubclass_State (StateCls _ _) = True"
| "issubclass_State _ = False"

fun issubclass_Plan :: "pytype \<Rightarrow> bool" where
  "issubclass_Plan (PlanCls _) = True"
| "issubclass_Plan _ = False"

fun isinstance :: "pyvalue \<Rightarrow> pytype \<Rightarrow> bool" where
  "isinstance PyNone T = (T = NoneType)"
| "isinstance (Instance c bases _) T = (T = c \<or> T \<in> set bases)"

fun type_of :: "pyvalue \<Rightarrow> pytype" where
  "type_of PyNone = NoneType"
| "type_of (Instance c _ _) = c"

fun isinstance_str :: "key \<Rightarrow> bool" where
  "isinstance_str (NameKey _) = True"
| "isinstance_str (TypeKey _) = False"

text \<open>The messages of the errors of \<^verbatim>\<open>errors.py\<close>, one constructor per message.\<close>

datatype signature_fault =
    NoTypedReturn
  | IncorrectTypedReturn pytype
  | NoArguments
  | UntypedArguments "string list"
  | InvalidArgumentType string pytype

datatype provider_fault = SameState string | SameName string

datatype return_fault = WrongInstance | Desynced | ReturnedNone

datatype error =
    InvalidOperationSignatureError string signature_fault
  | TooManyProvidersError string provider_fault
  | AsyncNotSupported
  | InvalidOperationReturnError string return_fault
  | NotRunningError
  | KeyError
  | AttributeError
  | ValueError string
  | CycleError
  | TimeoutError
  | StopIteration
  | RuntimeError string
  | Raised string

section \<open>Dictionaries in insertion order\<close>

text \<open>
  A Python \<^verbatim>\<open>dict\<close> as an association list: a lookup is \<^const>\<open>map_of\<close>,
  an assignment keeps the position of a key that is present and appends a new key,
  \<^verbatim>\<open>del\<close> removes the key.
\<close>

fun dict_set :: "'k \<Rightarrow> 'v \<Rightarrow> ('k \<times> 'v) list \<Rightarrow> ('k \<times> 'v) list" where
  "dict_set k v [] = [(k, v)]"
| "dict_set k v ((k', v') # d) = (if k' = k then (k, v) # d else (k', v') # dict_set k v d)"

definition dict_del :: "'k \<Rightarrow> ('k \<times> 'v) list \<Rightarrow> ('k \<times> 'v) list" where
  "dict_del k d = filter (\<lambda>kv. fst kv \<noteq> k) d"

definition dict_keys :: "('k \<times> 'v) list \<Rightarrow> 'k list" where
  "dict_keys d = map fst d"

section \<open>Operation descriptors (executor.py)\<close>

type_synonym kwargs = "(string \<times> pyvalue) list"

text \<open>
  A function object as \<^verbatim>\<open>operation\<close> inspects it: \<^verbatim>\<open>__name__\<close>, the result of
  \<^verbatim>\<open>get_type_hints\<close> (the hinted parameters in the order of
  \<^verbatim>\<open>__annotations__\<close>, then \<^verbatim>\<open>return\<close> when the return type is declared; CPython
  3.11 lists the positional-only parameters after the other positional parameters
  there), \<^verbatim>\<open>__code__.co_varnames\<close>
  (the names of the parameters in declaration order, followed by the names of the local
  variables),
  \<^verbatim>\<open>__code__.co_argcount\<close> (the number of parameters),
  \<^verbatim>\<open>iscoroutinefunction\<close>, and what a call with keyword arguments does.
\<close>

record pyfunc =
  fname :: string
  type_hints :: "(string \<times> pytype) list"
  co_varnames :: "string list"
  co_argcount :: nat
  iscoroutinefunction :: bool
  body :: "kwargs \<Rightarrow> error + pyvalue"

text \<open>
  \<^verbatim>\<open>SyncOperation\<close> and \<^verbatim>\<open>AsyncOperation\<close> have the same fields and the same
  \<^verbatim>\<open>name\<close>, \<^verbatim>\<open>id\<close> and \<^verbatim>\<open>_operation_wrapper\<close> (up to \<^verbatim>\<open>await\<close>);
  \<open>is_async\<close> tells them apart.
\<close>

record Operation =
  func :: pyfunc
  dependencies :: "pytype list"
  provides :: pytype
  hint_map :: "(pytype \<times> string) list"
  is_async :: bool

definition op_name :: "Operation \<Rightarrow> string" where
  "op_name op = fname (func op)"

definition op_id :: "Operation \<Rightarrow> key" where
  "op_id op = (if provides op \<noteq> NoneType then TypeKey (provides op) else NameKey (op_name op))"

definition operation_wrapper :: "Operation \<Rightarrow> kwargs \<Rightarrow> error + (pyvalue \<times> key)" where
  "operation_wrapper op kw =
     (case body (func op) kw of
        Inl e \<Rightarrow> Inl e
      | Inr state_value \<Rightarrow>
          if provides op \<noteq> NoneType then
            if \<not> isinstance state_value (provides op)
            then Inl (InvalidOperationReturnError (op_name op) WrongInstance)
            else if state_value = PyNone
            then Inl (InvalidOperationReturnError (op_name op) Desynced)
            else Inr (state_value, op_id op)
          else Inr (state_value, op_id op))"

text \<open>
  \<^verbatim>\<open>__call__\<close>: the keyword arguments are keyed by \<^verbatim>\<open>hint_map[type(arg)]\<close>; the
  result is the deferred call (a \<^verbatim>\<open>partial\<close> or a coroutine object) of the wrapper.
\<close>

type_synonym partial = "Operation \<times> kwargs"

fun bind_args :: "(pytype \<times> string) list \<Rightarrow> pyvalue list \<Rightarrow> kwargs \<Rightarrow> error + kwargs" where
  "bind_args hm [] kw = Inr kw"
| "bind_args hm (arg # args) kw =
     (case map_of hm (type_of arg) of
        None \<Rightarrow> Inl KeyError
      | Some n \<Rightarrow> bind_args hm args (dict_set n arg kw))"

definition op_call :: "Operation \<Rightarrow> pyvalue list \<Rightarrow> error + partial" where
  "op_call op args =
     (case bind_args (hint_map op) args [] of
        Inl e \<Rightarrow> Inl e
      | Inr kw \<Rightarrow> Inr (op, kw))"

definition run_partial :: "partial \<Rightarrow> error + (pyvalue \<times> key)" where
  "run_partial p = operation_wrapper (fst p) (snd p)"

section \<open>Executors (executor.py)\<close>

text \<open>
  Which in-flight unit completes first, and whether it does so within the timeout, is
  decided by the threads and by the event loop: it is an input of \<open>join_next\<close>. The unit at
  position \<open>first_done\<close> (modulo the number of units in flight) completes first;
  \<open>in_time\<close> tells whether that happens before a given timeout expires.
\<close>

record completion =
  first_done :: nat
  in_time :: bool

type_synonym timeout = "nat option"

subsection \<open>SynchronousExecutor\<close>

record SynchronousExecutor =
  schedule :: "partial list"

definition Sync_running :: "SynchronousExecutor \<Rightarrow> bool" where
  "Sync_running ex = (length (schedule ex) > 0)"

definition Sync_add_operations ::
  "SynchronousExecutor \<Rightarrow> (partial \<times> key) list \<Rightarrow> SynchronousExecutor" where
  "Sync_add_operations ex operations = ex\<lparr>schedule := schedule ex @ map fst operations\<rparr>"

definition Sync_join_next ::
  "SynchronousExecutor \<Rightarrow> timeout \<Rightarrow> SynchronousExecutor \<times> (error + (pyvalue \<times> key))" where
  "Sync_join_next ex t =
     (if \<not> Sync_running ex then (ex, Inl NotRunningError)
      else (ex\<lparr>schedule := butlast (schedule ex)\<rparr>, run_partial (last (schedule ex))))"

definition Sync_close :: "SynchronousExecutor \<Rightarrow> SynchronousExecutor" where
  "Sync_close ex = ex\<lparr>schedule := []\<rparr>"

subsection \<open>ThreadedExecutor\<close>

text \<open>
  The futures in flight, and whether the pool has been shut down (by \<^verbatim>\<open>close\<close>):
  \<^verbatim>\<open>pool.submit\<close> raises \<^verbatim>\<open>RuntimeError\<close> on a pool that is shut down.
\<close>

record ThreadedExecutor =
  futures :: "partial list"
  pool_shutdown :: bool

definition Threaded_running :: "ThreadedExecutor \<Rightarrow> bool" where
  "Threaded_running ex = (length (futures ex) > 0)"

definition Threaded_add_operations ::
  "ThreadedExecutor \<Rightarrow> (partial \<times> key) list \<Rightarrow> ThreadedExecutor \<times> error option" where
  "Threaded_add_operations ex operations =
     (if operations \<noteq> [] \<and> pool_shutdown ex
      then (ex, Some (RuntimeError ''cannot schedule new futures after shutdown''))
      else (ex\<lparr>futures := futures ex @ map fst operations\<rparr>, None))"

definition remove_nth :: "nat \<Rightarrow> 'a list \<Rightarrow> 'a list" where
  "remove_nth i xs = take i xs @ drop (Suc i) xs"

text \<open>
  \<^verbatim>\<open>next(as_completed(self.futures, timeout=timeout))\<close> raises \<^verbatim>\<open>TimeoutError\<close> when
  a timeout is given and expires before a future completes.
\<close>

definition Threaded_join_next ::
  "ThreadedExecutor \<Rightarrow> timeout \<Rightarrow> completion \<Rightarrow> ThreadedExecutor \<times> (error + (pyvalue \<times> key))" where
  "Threaded_join_next ex t c =
     (if \<not> Threaded_running ex then (ex, Inl NotRunningError)
      else if t \<noteq> None \<and> \<not> in_time c then (ex, Inl TimeoutError)
      else
        let i = first_done c mod length (futures ex) in
        (ex\<lparr>futures := remove_nth i (futures ex)\<rparr>, run_partial (futures ex ! i)))"

definition Threaded_close :: "ThreadedExecutor \<Rightarrow> ThreadedExecutor" where
  "Threaded_close ex = ex\<lparr>futures := [], pool_shutdown := True\<rparr>"

subsection \<open>AsyncioExecutor\<close>

record AsyncioExecutor =
  tasks :: "(key \<times> partial) list"
  loop_is_closed :: bool
  thread_sync :: bool

definition Asyncio_running :: "AsyncioExecutor \<Rightarrow> bool" where
  "Asyncio_running ex = (length (tasks ex) > 0 \<or> loop_is_closed ex)"

text \<open>\<^verbatim>\<open>loop.create_task\<close> raises \<^verbatim>\<open>RuntimeError\<close> on a closed loop.\<close>

fun create_tasks ::
  "bool \<Rightarrow> (key \<times> partial) list \<Rightarrow> (partial \<times> key) list \<Rightarrow> (key \<times> partial) list \<times> error option" where
  "create_tasks closed ts [] = (ts, None)"
| "create_tasks closed ts (operation # operations) =
     (if closed then (ts, Some (RuntimeError ''Event loop is closed''))
      else create_tasks closed (dict_set (snd operation) (fst operation) ts) operations)"

definition Asyncio_add_operations ::
  "AsyncioExecutor \<Rightarrow> (partial \<times> key) list \<Rightarrow> AsyncioExecutor \<times> error option" where
  "Asyncio_add_operations ex operations =
     (let (ts, e) = create_tasks (loop_is_closed ex) (tasks ex) operations
      in (ex\<lparr>tasks := ts\<rparr>, e))"

definition Asyncio_add_async_operations ::
  "AsyncioExecutor \<Rightarrow> (partial \<times> key) list \<Rightarrow> AsyncioExecutor \<times> error option" where
  "Asyncio_add_async_operations ex operations =
     (let (ts, e) = create_tasks (loop_is_closed ex) (tasks ex) operations
      in (ex\<lparr>tasks := ts\<rparr>, e))"

text \<open>
  \<^verbatim>\<open>join_next\<close> never reads its \<^verbatim>\<open>timeout\<close>:
  \<^verbatim>\<open>next(asyncio.as_completed(self.tasks.values()))\<close> raises \<^verbatim>\<open>StopIteration\<close> when
  there is no task, and \<^verbatim>\<open>run_until_complete\<close> raises \<^verbatim>\<open>RuntimeError\<close> on a closed
  loop and otherwise waits for the first task to complete, whatever time that takes.
\<close>

definition Asyncio_join_next ::
  "AsyncioExecutor \<Rightarrow> timeout \<Rightarrow> completion \<Rightarrow> AsyncioExecutor \<times> (error + (pyvalue \<times> key))" where
  "Asyncio_join_next ex t c =
     (if \<not> Asyncio_running ex then (ex, Inl NotRunningError)
      else if tasks ex = [] then (ex, Inl StopIteration)
      else if loop_is_closed ex then (ex, Inl (RuntimeError ''Event loop is closed''))
      else
        let i = first_done c mod length (tasks ex) in
        (case run_partial (snd (tasks ex ! i)) of
           Inl e \<Rightarrow> (ex, Inl e)
         | Inr return_value \<Rightarrow>
             if snd return_value \<in> set (dict_keys (tasks ex))
             then (ex\<lparr>tasks := dict_del (snd return_value) (tasks ex)\<rparr>, Inr return_value)
             else (ex, Inl KeyError)))"

definition Asyncio_close :: "AsyncioExecutor \<Rightarrow> AsyncioExecutor" where
  "Asyncio_close ex = ex\<lparr>tasks := []\<rparr>"

subsection \<open>The Executor interface\<close>

datatype executor =
    Synchronous SynchronousExecutor
  | Threaded ThreadedExecutor
  | Asyncio AsyncioExecutor

fun running :: "executor \<Rightarrow> bool" where
  "running (Synchronous ex) = Sync_running ex"
| "running (Threaded ex) = Threaded_running ex"
| "running (Asyncio ex) = Asyncio_running ex"

fun add_operations :: "executor \<Rightarrow> (partial \<times> key) list \<Rightarrow> executor \<times> error option" where
  "add_operations (Synchronous ex) ops = (Synchronous (Sync_add_operations ex ops), None)"
| "add_operations (Threaded ex) ops =
     (let (ex', e) = Threaded_add_operations ex ops in (Threaded ex', e))"
| "add_operations (Asyncio ex) ops =
     (let (ex', e) = Asyncio_add_operations ex ops in (Asyncio ex', e))"

fun add_async_operations :: "executor \<Rightarrow> (partial \<times> key) list \<Rightarrow> executor \<times> error option" where
  "add_async_operations (Synchronous ex) ops = (Synchronous ex, Some AsyncNotSupported)"
| "add_async_operations (Threaded ex) ops = (Threaded ex, Some AsyncNotSupported)"
| "add_async_operations (Asyncio ex) ops =
     (let (ex', e) = Asyncio_add_async_operations ex ops in (Asyncio ex', e))"

fun join_next :: "executor \<Rightarrow> timeout \<Rightarrow> completion \<Rightarrow> executor \<times> (error + (pyvalue \<times> key))" where
  "join_next (Synchronous ex) t c = (let (ex', r) = Sync_join_next ex t in (Synchronous ex', r))"
| "join_next (Threaded ex) t c = (let (ex', r) = Threaded_join_next ex t c in (Threaded ex', r))"
| "join_next (Asyncio ex) t c = (let (ex', r) = Asyncio_join_next ex t c in (Asyncio ex', r))"

section \<open>TopologicalSorter (graphlib)\<close>

text \<open>
  The dependency graph is a \<^verbatim>\<open>graphlib.TopologicalSorter\<close> of the Python standard
  library. \<^verbatim>\<open>_node2info\<close> maps a node to its number of predecessors not yet done
  (\<open>-1\<close> once the node was passed out by \<^verbatim>\<open>get_ready\<close>, \<open>-2\<close> once it is done)
  and to the list of its successors.
\<close>

record NodeInfo =
  npredecessors :: int
  successors :: "key list"

record TopologicalSorter =
  node2info :: "(key \<times> NodeInfo) list"
  ready_nodes :: "key list option"
  npassedout :: nat
  nfinished :: nat

definition NODE_OUT :: int where "NODE_OUT = -1"
definition NODE_DONE :: int where "NODE_DONE = -2"

definition new_sorter :: TopologicalSorter where
  "new_sorter = \<lparr>node2info = [], ready_nodes = None, npassedout = 0, nfinished = 0\<rparr>"

definition get_nodeinfo :: "key \<Rightarrow> (key \<times> NodeInfo) list \<Rightarrow> (key \<times> NodeInfo) list" where
  "get_nodeinfo node n2i =
     (case map_of n2i node of
        None \<Rightarrow> n2i @ [(node, \<lparr>npredecessors = 0, successors = []\<rparr>)]
      | Some _ \<Rightarrow> n2i)"

definition update_info ::
  "key \<Rightarrow> (NodeInfo \<Rightarrow> NodeInfo) \<Rightarrow> (key \<times> NodeInfo) list \<Rightarrow> (key \<times> NodeInfo) list" where
  "update_info node f n2i = map (\<lambda>(k, i). if k = node then (k, f i) else (k, i)) n2i"

definition add_successor :: "key \<Rightarrow> key \<Rightarrow> (key \<times> NodeInfo) list \<Rightarrow> (key \<times> NodeInfo) list" where
  "add_successor node pred n2i =
     update_info pred (\<lambda>i. i\<lparr>successors := successors i @ [node]\<rparr>) (get_nodeinfo pred n2i)"

definition ts_add :: "TopologicalSorter \<Rightarrow> key \<Rightarrow> key list \<Rightarrow> error + TopologicalSorter" where
  "ts_add g node predecessors =
     (if ready_nodes g \<noteq> None
      then Inl (ValueError ''Nodes cannot be added after a call to prepare()'')
      else
        let n2i = update_info node
                    (\<lambda>i. i\<lparr>npredecessors := npredecessors i + int (length predecessors)\<rparr>)
                    (get_nodeinfo node (node2info g))
        in Inr (g\<lparr>node2info := fold (add_successor node) predecessors n2i\<rparr>))"

text \<open>
  \<^verbatim>\<open>_find_cycle\<close> is a depth-first search of which \<^verbatim>\<open>prepare\<close> uses only whether
  it found a cycle: some node reaches itself along successor edges. A call that raises
  returns the error alone; the state it leaves behind is not modelled.
\<close>

definition ts_successors :: "(key \<times> NodeInfo) list \<Rightarrow> key \<Rightarrow> key list" where
  "ts_successors n2i k = (case map_of n2i k of None \<Rightarrow> [] | Some i \<Rightarrow> successors i)"

fun reach_from :: "nat \<Rightarrow> (key \<times> NodeInfo) list \<Rightarrow> key list \<Rightarrow> key list" where
  "reach_from 0 n2i xs = xs"
| "reach_from (Suc n) n2i xs =
     reach_from n n2i (remdups (xs @ concat (map (ts_successors n2i) xs)))"

definition find_cycle :: "(key \<times> NodeInfo) list \<Rightarrow> bool" where
  "find_cycle n2i =
     list_ex (\<lambda>k. k \<in> set (reach_from (length n2i) n2i (ts_successors n2i k))) (dict_keys n2i)"

definition ts_prepare :: "TopologicalSorter \<Rightarrow> error + TopologicalSorter" where
  "ts_prepare g =
     (if ready_nodes g \<noteq> None then Inl (ValueError ''cannot prepare() more than once'')
      else if find_cycle (node2info g) then Inl CycleError
      else Inr (g\<lparr>ready_nodes :=
                  Some (map fst (filter (\<lambda>(k, i). npredecessors i = 0) (node2info g)))\<rparr>))"

fun mark_out :: "key list \<Rightarrow> (key \<times> NodeInfo) list \<Rightarrow> error + (key \<times> NodeInfo) list" where
  "mark_out [] n2i = Inr n2i"
| "mark_out (node # result) n2i =
     (case map_of n2i node of
        None \<Rightarrow> Inl KeyError
      | Some _ \<Rightarrow> mark_out result (update_info node (\<lambda>i. i\<lparr>npredecessors := NODE_OUT\<rparr>) n2i))"

definition ts_get_ready :: "TopologicalSorter \<Rightarrow> error + (key list \<times> TopologicalSorter)" where
  "ts_get_ready g =
     (case ready_nodes g of
        None \<Rightarrow> Inl (ValueError ''prepare() must be called first'')
      | Some result \<Rightarrow>
          (case mark_out result (node2info g) of
             Inl e \<Rightarrow> Inl e
           | Inr n2i \<Rightarrow>
               Inr (result, g\<lparr>node2info := n2i, ready_nodes := Some [],
                               npassedout := npassedout g + length result\<rparr>)))"

definition ts_is_active :: "TopologicalSorter \<Rightarrow> error + bool" where
  "ts_is_active g =
     (case ready_nodes g of
        None \<Rightarrow> Inl (ValueError ''prepare() must be called first'')
      | Some r \<Rightarrow> Inr (nfinished g < npassedout g \<or> r \<noteq> []))"

fun release_successors ::
  "key list \<Rightarrow> (key \<times> NodeInfo) list \<Rightarrow> key list \<Rightarrow> error + ((key \<times> NodeInfo) list \<times> key list)" where
  "release_successors [] n2i ready = Inr (n2i, ready)"
| "release_successors (successor # rest) n2i ready =
     (case map_of n2i successor of
        None \<Rightarrow> Inl KeyError
      | Some successor_info \<Rightarrow>
          release_successors rest
            (update_info successor (\<lambda>i. i\<lparr>npredecessors := npredecessors i - 1\<rparr>) n2i)
            (if npredecessors successor_info - 1 = 0 then ready @ [successor] else ready))"

definition ts_done :: "TopologicalSorter \<Rightarrow> key \<Rightarrow> error + TopologicalSorter" where
  "ts_done g node =
     (case ready_nodes g of
        None \<Rightarrow> Inl (ValueError ''prepare() must be called first'')
      | Some ready \<Rightarrow>
          (case map_of (node2info g) node of
             None \<Rightarrow> Inl (ValueError ''node was not added using add()'')
           | Some nodeinfo \<Rightarrow>
               if npredecessors nodeinfo \<noteq> NODE_OUT then
                 (if npredecessors nodeinfo \<ge> 0
                  then Inl (ValueError ''node was not passed out (still not ready)'')
                  else if npredecessors nodeinfo = NODE_DONE
                  then Inl (ValueError ''node was already marked done'')
                  else Inl (Raised ''AssertionError''))
               else
                 (case release_successors (successors nodeinfo)
                         (update_info node (\<lambda>i. i\<lparr>npredecessors := NODE_DONE\<rparr>) (node2info g))
                         ready of
                    Inl e \<Rightarrow> Inl e
                  | Inr (n2i, ready') \<Rightarrow>
                      Inr (g\<lparr>node2info := n2i, ready_nodes := Some ready',
                             nfinished := nfinished g + 1\<rparr>))))"

section \<open>Plan classes and registration (__init__.py)\<close>

text \<open>
  The class attributes that \<^verbatim>\<open>PlanMeta.__new__\<close> gives every Plan class. They belong
  to the class: every instance of the class reads and writes the same registry, result
  mapping, executor and graph.
\<close>

record Plan =
  plan_name :: plan_id
  onward_operations :: "(key \<times> Operation) list"
  onward_states :: "(pytype \<times> pyvalue) list"
  onward_executor :: executor
  onward_operation_graph :: TopologicalSorter

definition PlanMeta_new :: "plan_id \<Rightarrow> executor \<Rightarrow> Plan" where
  "PlanMeta_new cls_name ex =
     \<lparr>plan_name = cls_name, onward_operations = [], onward_states = [],
      onward_executor = ex, onward_operation_graph = new_sorter\<rparr>"

text \<open>The attribute \<^verbatim>\<open>__onward_plan__\<close> of a state class.\<close>

fun onward_plan :: "pytype \<Rightarrow> error + plan_id" where
  "onward_plan (StateCls _ (Some p)) = Inr p"
| "onward_plan _ = Inl AttributeError"

text \<open>Lines 203 to 207 of \<^verbatim>\<open>operation\<close>: the Plan class that owns the operation.\<close>

definition owning_plan :: "pytype \<Rightarrow> error + plan_id" where
  "owning_plan first_arg =
     (if issubclass_State first_arg then onward_plan first_arg
      else (case first_arg of PlanCls p \<Rightarrow> Inr p | _ \<Rightarrow> Inl AttributeError))"

text \<open>Lines 196 to 201: the loop over the hints of the parameters.\<close>

fun collect_depends ::
  "string \<Rightarrow> (string \<times> pytype) list \<Rightarrow> pytype list \<Rightarrow> (pytype \<times> string) list \<Rightarrow>
   error + (pytype list \<times> (pytype \<times> string) list)" where
  "collect_depends fn [] depends hm = Inr (depends, hm)"
| "collect_depends fn ((dep_name, dep_state) # hints) depends hm =
     (if \<not> issubclass_State dep_state \<and> \<not> issubclass_Plan dep_state
      then Inl (InvalidOperationSignatureError fn (InvalidArgumentType dep_name dep_state))
      else collect_depends fn hints (depends @ [dep_state]) (dict_set dep_state dep_name hm))"

text \<open>
  Lines 170 to 212: the checks of the signature; on success the descriptor and the name
  of the Plan class that owns it.
\<close>

definition make_operation :: "pyfunc \<Rightarrow> error + (Operation \<times> plan_id)" where
  "make_operation f =
     (case map_of (type_hints f) ''return'' of
        None \<Rightarrow> Inl (InvalidOperationSignatureError (fname f) NoTypedReturn)
      | Some ret \<Rightarrow>
          if \<not> issubclass_State ret \<and> ret \<noteq> NoneType
          then Inl (InvalidOperationSignatureError (fname f) (IncorrectTypedReturn ret))
          else
            let hints = dict_del ''return'' (type_hints f);
                arguement_names = co_varnames f
            in
            if length arguement_names = 0
            then Inl (InvalidOperationSignatureError (fname f) NoArguments)
            else if \<not> list_all (\<lambda>name. name \<in> set (dict_keys hints)) arguement_names
            then Inl (InvalidOperationSignatureError (fname f)
                   (UntypedArguments (filter (\<lambda>name. name \<notin> set (dict_keys hints)) arguement_names)))
            else
              (case collect_depends (fname f) hints [] [] of
                 Inl e \<Rightarrow> Inl e
               | Inr (depends, hm) \<Rightarrow>
                   (case depends of
                      [] \<Rightarrow> Inl (Raised ''IndexError'')
                    | first_arg # _ \<Rightarrow>
                        (case owning_plan first_arg of
                           Inl e \<Rightarrow> Inl e
                         | Inr plan \<Rightarrow>
                             Inr (\<lparr>func = f, dependencies = depends, provides = ret,
                                   hint_map = hm, is_async = iscoroutinefunction f\<rparr>, plan)))))"

text \<open>
  Lines 214 to 228: the conflict check against the registry of the owning class, and the
  insertion. The classes are addressed by name.
\<close>

definition register_operation ::
  "Operation \<Rightarrow> (key \<times> Operation) list \<Rightarrow> error + (key \<times> Operation) list" where
  "register_operation operation registry =
     (if TypeKey (provides operation) \<in> set (dict_keys registry)
         \<or> NameKey (op_name operation) \<in> set (dict_keys registry)
      then
        (case map_of registry (op_id operation) of
           None \<Rightarrow> Inl KeyError
         | Some other_op \<Rightarrow>
             if TypeKey (provides operation) \<in> set (dict_keys registry)
             then Inl (TooManyProvidersError (op_name operation) (SameState (op_name other_op)))
             else Inl (TooManyProvidersError (op_name operation) (SameName (op_name other_op))))
      else Inr (dict_set (op_id operation) operation registry))"

definition operation :: "pyfunc \<Rightarrow> (plan_id \<Rightarrow> Plan) \<Rightarrow> error + (plan_id \<Rightarrow> Plan)" where
  "operation f classes =
     (case make_operation f of
        Inl e \<Rightarrow> Inl e
      | Inr (op, plan) \<Rightarrow>
          (case register_operation op (onward_operations (classes plan)) of
             Inl e \<Rightarrow> Inl e
           | Inr registry \<Rightarrow>
               Inr (classes(plan := (classes plan)\<lparr>onward_operations := registry\<rparr>))))"

section \<open>Plan instances and the run loop (__init__.py)\<close>

fun add_registry :: "(key \<times> Operation) list \<Rightarrow> TopologicalSorter \<Rightarrow> error + TopologicalSorter" where
  "add_registry [] g = Inr g"
| "add_registry ((state, oper) # items) g =
     (case ts_add g state (map TypeKey (filter issubclass_State (dependencies oper))) of
        Inl e \<Rightarrow> Inl e
      | Inr g' \<Rightarrow> add_registry items g')"

definition Plan_init :: "Plan \<Rightarrow> error + Plan" where
  "Plan_init self =
     (case add_registry (onward_operations self) (onward_operation_graph self) of
        Inl e \<Rightarrow> Inl e
      | Inr g \<Rightarrow>
          (case ts_prepare g of
             Inl e \<Rightarrow> Inl e
           | Inr g' \<Rightarrow> Inr (self\<lparr>onward_operation_graph := g'\<rparr>)))"

definition next_operation_group :: "Plan \<Rightarrow> error + (key list \<times> Plan)" where
  "next_operation_group self =
     (case ts_get_ready (onward_operation_graph self) of
        Inl e \<Rightarrow> Inl e
      | Inr (nodes, g) \<Rightarrow> Inr (nodes, self\<lparr>onward_operation_graph := g\<rparr>))"

definition get_state_value :: "Plan \<Rightarrow> pytype \<Rightarrow> pyvalue option" where
  "get_state_value self state_type = map_of (onward_states self) state_type"

definition plan_active :: "Plan \<Rightarrow> error + bool" where
  "plan_active self = ts_is_active (onward_operation_graph self)"

definition self_value :: "Plan \<Rightarrow> pyvalue" where
  "self_value self = Instance (PlanCls (plan_name self)) [] []"

fun resolve_args :: "Plan \<Rightarrow> pytype list \<Rightarrow> error + pyvalue list" where
  "resolve_args self [] = Inr []"
| "resolve_args self (req_state # deps) =
     (case (if issubclass_State req_state
            then (case map_of (onward_states self) req_state of
                    None \<Rightarrow> Inl KeyError | Some v \<Rightarrow> Inr v)
            else Inr (self_value self)) of
        Inl e \<Rightarrow> Inl e
      | Inr v \<Rightarrow> (case resolve_args self deps of Inl e \<Rightarrow> Inl e | Inr vs \<Rightarrow> Inr (v # vs)))"

fun build_partials ::
  "Plan \<Rightarrow> key list \<Rightarrow> (partial \<times> key) list \<Rightarrow> (partial \<times> key) list \<Rightarrow>
   error + ((partial \<times> key) list \<times> (partial \<times> key) list)" where
  "build_partials self [] sync_partials async_partials = Inr (sync_partials, async_partials)"
| "build_partials self (state # nodes) sync_partials async_partials =
     (case map_of (onward_operations self) state of
        None \<Rightarrow> Inl KeyError
      | Some oper \<Rightarrow>
          (case resolve_args self (dependencies oper) of
             Inl e \<Rightarrow> Inl e
           | Inr args \<Rightarrow>
               (case op_call oper args of
                  Inl e \<Rightarrow> Inl e
                | Inr p \<Rightarrow>
                    if is_async oper
                    then build_partials self nodes sync_partials
                           (async_partials @ [(p, op_id oper)])
                    else build_partials self nodes
                           (sync_partials @ [(p, op_id oper)]) async_partials)))"

definition dispatch :: "Plan \<Rightarrow> key list \<Rightarrow> error + Plan" where
  "dispatch self nodes =
     (case build_partials self nodes [] [] of
        Inl e \<Rightarrow> Inl e
      | Inr (sync_partials, async_partials) \<Rightarrow>
          (case add_operations (onward_executor self) sync_partials of
             (ex, Some e) \<Rightarrow> Inl e
           | (ex, None) \<Rightarrow>
               if async_partials \<noteq> [] then
                 (case add_async_operations ex async_partials of
                    (ex', Some e) \<Rightarrow> Inl e
                  | (ex', None) \<Rightarrow> Inr (self\<lparr>onward_executor := ex'\<rparr>))
               else Inr (self\<lparr>onward_executor := ex\<rparr>)))"

definition record_result :: "Plan \<Rightarrow> pyvalue \<Rightarrow> key \<Rightarrow> error + Plan" where
  "record_result self next_result next_state =
     (case next_state of
        NameKey _ \<Rightarrow> Inr self
      | TypeKey T \<Rightarrow>
          if next_result = PyNone then
            (case map_of (onward_operations self) next_state of
               None \<Rightarrow> Inl KeyError
             | Some op \<Rightarrow> Inl (InvalidOperationReturnError (op_name op) ReturnedNone))
          else Inr (self\<lparr>onward_states := dict_set T next_result (onward_states self)\<rparr>))"

definition join_and_record :: "completion \<Rightarrow> Plan \<Rightarrow> error + Plan" where
  "join_and_record c self =
     (case join_next (onward_executor self) None c of
        (ex, Inl e) \<Rightarrow> Inl e
      | (ex, Inr (next_result, next_state)) \<Rightarrow>
          (case record_result (self\<lparr>onward_executor := ex\<rparr>) next_result next_state of
             Inl e \<Rightarrow> Inl e
           | Inr self' \<Rightarrow>
               (case ts_done (onward_operation_graph self') next_state of
                  Inl e \<Rightarrow> Inl e
                | Inr g \<Rightarrow> Inr (self'\<lparr>onward_operation_graph := g\<rparr>))))"

text \<open>One iteration of the loop of \<^verbatim>\<open>start_or_resume\<close>.\<close>

definition loop_body :: "completion \<Rightarrow> Plan \<Rightarrow> error + Plan" where
  "loop_body c self =
     (case next_operation_group self of
        Inl e \<Rightarrow> Inl e
      | Inr (nodes, self') \<Rightarrow>
          if nodes = [] then join_and_record c self' else dispatch self' nodes)"



text \<open>The state of the loop after at most as many iterations as there are completions.\<close>

fun resume_for :: "completion list \<Rightarrow> Plan \<Rightarrow> error + Plan" where
  "resume_for [] self = Inr self"
| "resume_for (c # cs) self =
     (case plan_active self of
        Inl e \<Rightarrow> Inl e
      | Inr False \<Rightarrow> Inr self
      | Inr True \<Rightarrow>
          (case loop_body c self of
             Inl e \<Rightarrow> Inl e
           | Inr self' \<Rightarrow> resume_for cs self'))"

section \<open>The plan of tests/test_order.py\<close>

definition SimpleOrder :: pytype where
  "SimpleOrder = PlanCls ''SimpleOrder''"

definition FirstState :: pytype where
  "FirstState = StateCls ''FirstState'' (Some ''SimpleOrder'')"

definition SecondState :: pytype where
  "SecondState = StateCls ''SecondState'' (Some ''SimpleOrder'')"

definition ThirdState :: pytype where
  "ThirdState = StateCls ''ThirdState'' (Some ''SimpleOrder'')"

definition ForthState :: pytype where
  "ForthState = StateCls ''ForthState'' (Some ''SimpleOrder'')"

definition FifthState :: pytype where
  "FifthState = StateCls ''FifthState'' (Some ''SimpleOrder'')"

definition UnusedState :: pytype where
  "UnusedState = StateCls ''UnusedState'' (Some ''SimpleOrder'')"

text \<open>
  A function with the given name, typed parameters and return type and no local
  variable, which returns \<^verbatim>\<open>None\<close> or an object of its return type that carries the
  function's name as \<^verbatim>\<open>provider\<close>.
\<close>

definition test_function :: "string \<Rightarrow> (string \<times> pytype) list \<Rightarrow> pytype \<Rightarrow> pyfunc" where
  "test_function n params ret =
     \<lparr>fname = n, type_hints = params @ [(''return'', ret)], co_varnames = map fst params,
      co_argcount = length params, iscoroutinefunction = False,
      body = (\<lambda>kw. Inr (if ret = NoneType then PyNone else Instance ret [] n))\<rparr>"

definition operation1 :: pyfunc where
  "operation1 = test_function ''operation1'' [(''plan'', SimpleOrder)] FirstState"

definition operation2 :: pyfunc where
  "operation2 = test_function ''operation2''
     [(''plan'', SimpleOrder), (''first'', FirstState)] SecondState"

definition operation3 :: pyfunc where
  "operation3 = test_function ''operation3''
     [(''plan'', SimpleOrder), (''second'', SecondState)] ThirdState"

definition operation4 :: pyfunc where
  "operation4 = test_function ''operation4''
     [(''plan'', SimpleOrder), (''second'', SecondState), (''third'', ThirdState)] NoneType"

definition operation5 :: pyfunc where
  "operation5 = test_function ''operation5''
     [(''plan'', SimpleOrder), (''third'', ThirdState)] ForthState"

definition operation6 :: pyfunc where
  "operation6 = test_function ''operation6''
     [(''plan'', SimpleOrder), (''forth'', ForthState)] FifthState"

fun register_all :: "pyfunc list \<Rightarrow> (plan_id \<Rightarrow> Plan) \<Rightarrow> error + (plan_id \<Rightarrow> Plan)" where
  "register_all [] classes = Inr classes"
| "register_all (f # fs) classes =
     (case operation f classes of Inl e \<Rightarrow> Inl e | Inr classes' \<Rightarrow> register_all fs classes')"

text \<open>Every Plan class as its metaclass creates it, with a serial executor.\<close>

definition new_classes :: "plan_id \<Rightarrow> Plan" where
  "new_classes = (\<lambda>n. PlanMeta_new n (Synchronous \<lparr>schedule = []\<rparr>))"

section \<open>The serial executor is a stack\<close>

lemma Sync_join_next_pops:
  "schedule ex \<noteq> [] \<Longrightarrow>
   Sync_join_next ex t = (ex\<lparr>schedule := butlast (schedule ex)\<rparr>, run_partial (last (schedule ex)))"
  by (simp add: Sync_join_next_def Sync_running_def)

text \<open>
  C6. \<^verbatim>\<open>add_operations\<close> pushes the units of a batch on the schedule in order; a
  \<^verbatim>\<open>join_next\<close> on a non-empty schedule removes the unit submitted last and returns the
  result of running it; joining three times after one batch \<open>[a, b, c]\<close> on an empty
  schedule runs \<open>c\<close>, then \<open>b\<close>, then \<open>a\<close>, and leaves the schedule empty.
\<close>

theorem serial_executor_lifo:
  "(operations \<noteq> [] \<longrightarrow>
      Sync_join_next (Sync_add_operations ex operations) t =
        (ex\<lparr>schedule := schedule ex @ map fst (butlast operations)\<rparr>,
         run_partial (fst (last operations))))
   \<and> (schedule ex \<noteq> [] \<longrightarrow>
      Sync_join_next ex t =
        (ex\<lparr>schedule := butlast (schedule ex)\<rparr>, run_partial (last (schedule ex))))
   \<and> (let e0 = Sync_add_operations \<lparr>schedule = []\<rparr> [(a, ka), (b, kb), (c, kc)];
           (e1, r1) = Sync_join_next e0 t;
           (e2, r2) = Sync_join_next e1 t;
           (e3, r3) = Sync_join_next e2 t
       in r1 = run_partial c \<and> r2 = run_partial b \<and> r3 = run_partial a
          \<and> schedule e0 = [a, b, c] \<and> schedule e3 = [])"
proof (intro conjI impI)
  assume ne: "operations \<noteq> []"
  then have "schedule (Sync_add_operations ex operations) \<noteq> []"
    by (simp add: Sync_add_operations_def)
  from Sync_join_next_pops [OF this] ne
  show "Sync_join_next (Sync_add_operations ex operations) t =
        (ex\<lparr>schedule := schedule ex @ map fst (butlast operations)\<rparr>,
         run_partial (fst (last operations)))"
    by (simp add: Sync_add_operations_def butlast_append last_map map_butlast)
next
  assume "schedule ex \<noteq> []"
  then show "Sync_join_next ex t =
        (ex\<lparr>schedule := butlast (schedule ex)\<rparr>, run_partial (last (schedule ex)))"
    by (rule Sync_join_next_pops)
next
  show "let e0 = Sync_add_operations \<lparr>schedule = []\<rparr> [(a, ka), (b, kb), (c, kc)];
           (e1, r1) = Sync_join_next e0 t;
           (e2, r2) = Sync_join_next e1 t;
           (e3, r3) = Sync_join_next e2 t
       in r1 = run_partial c \<and> r2 = run_partial b \<and> r3 = run_partial a
          \<and> schedule e0 = [a, b, c] \<and> schedule e3 = []"
    by (simp add: Sync_add_operations_def Sync_join_next_def Sync_running_def)
qed

definition unit1 :: partial where
  "unit1 = (\<lparr>func = operation1, dependencies = [SimpleOrder], provides = FirstState,
             hint_map = [(SimpleOrder, ''plan'')], is_async = False\<rparr>,
            [(''plan'', Instance SimpleOrder [] [])])"

theorem serial_executor_lifo_witness:
  "Sync_join_next (Sync_add_operations \<lparr>schedule = []\<rparr> [(unit1, TypeKey FirstState)]) None =
     (\<lparr>schedule = []\<rparr>, run_partial unit1)
   \<and> Sync_join_next \<lparr>schedule = [unit1]\<rparr> None = (\<lparr>schedule = []\<rparr>, run_partial unit1)"
  using serial_executor_lifo [of "[(unit1, TypeKey FirstState)]" "\<lparr>schedule = []\<rparr>" None]
    serial_executor_lifo [of "[]" "\<lparr>schedule = [unit1]\<rparr>" None]
  by simp

section \<open>Joining an executor with nothing in flight\<close>

text \<open>
  With nothing in flight, \<^verbatim>\<open>join_next\<close> of the serial and of the threaded executor
  fails with \<^verbatim>\<open>NotRunningError\<close> (the threaded one also after \<^verbatim>\<open>close\<close>), and so
  does \<^verbatim>\<open>join_next\<close> of the asyncio executor while its loop is open. The executor is
  left as it was.
\<close>

lemma join_next_idle:
  "(schedule s = [] \<longrightarrow> join_next (Synchronous s) t c = (Synchronous s, Inl NotRunningError))
   \<and> (futures f = [] \<longrightarrow> join_next (Threaded f) t c = (Threaded f, Inl NotRunningError))
   \<and> (tasks a = [] \<and> \<not> loop_is_closed a \<longrightarrow>
        join_next (Asyncio a) t c = (Asyncio a, Inl NotRunningError))"
  by (simp add: Sync_join_next_def Sync_running_def Threaded_join_next_def Threaded_running_def
      Asyncio_join_next_def Asyncio_running_def)

text \<open>
  C5. \<^verbatim>\<open>AsyncioExecutor.running\<close> is \<^verbatim>\<open>len(self.tasks) > 0 or self.loop.is_closed()\<close>.
  On a closed loop with no task the guard \<^verbatim>\<open>if not self.running\<close> of \<^verbatim>\<open>join_next\<close>
  lets the call through to \<^verbatim>\<open>next(asyncio.as_completed(...))\<close> over no task, and the
  call ends in \<^verbatim>\<open>StopIteration\<close>, not in \<^verbatim>\<open>NotRunningError\<close>; the serial executor,
  and the threaded executor after \<^verbatim>\<open>close\<close>, raise \<^verbatim>\<open>NotRunningError\<close> when idle.
\<close>

theorem join_next_on_closed_loop:
  "tasks \<lparr>tasks = [], loop_is_closed = True, thread_sync = False\<rparr> = []
   \<and> join_next (Asyncio \<lparr>tasks = [], loop_is_closed = True, thread_sync = False\<rparr>) None
        \<lparr>first_done = 0, in_time = True\<rparr>
      = (Asyncio \<lparr>tasks = [], loop_is_closed = True, thread_sync = False\<rparr>, Inl StopIteration)
   \<and> join_next (Threaded (Threaded_close \<lparr>futures = [], pool_shutdown = False\<rparr>)) None
        \<lparr>first_done = 0, in_time = True\<rparr>
      = (Threaded \<lparr>futures = [], pool_shutdown = True\<rparr>, Inl NotRunningError)
   \<and> join_next (Synchronous (Sync_close \<lparr>schedule = []\<rparr>)) None
        \<lparr>first_done = 0, in_time = True\<rparr>
      = (Synchronous \<lparr>schedule = []\<rparr>, Inl NotRunningError)"
  by (simp add: Asyncio_join_next_def Asyncio_running_def Threaded_join_next_def
      Threaded_running_def Threaded_close_def Sync_join_next_def Sync_running_def Sync_close_def)

section \<open>The invocation wrapper\<close>

text \<open>
  An operation declared to return \<^verbatim>\<open>None\<close> whose function returns an object.
\<close>

definition returns_value_for_none :: Operation where
  "returns_value_for_none =
     \<lparr>func = (test_function ''operation4'' [(''plan'', SimpleOrder)] NoneType)
               \<lparr>body := (\<lambda>kw. Inr (Instance FirstState [] ''operation4''))\<rparr>,
      dependencies = [SimpleOrder], provides = NoneType,
      hint_map = [(SimpleOrder, ''plan'')], is_async = False\<rparr>"

text \<open>
  C4, as the specification states it, fails: when the declared output is "none", the
  wrapper checks nothing and returns whatever the function returned, here an object and
  not the none-marker.
\<close>

theorem wrapper_none_counterexample:
  "provides returns_value_for_none = NoneType
   \<and> operation_wrapper returns_value_for_none [(''plan'', Instance SimpleOrder [] [])]
       = Inr (Instance FirstState [] ''operation4'', NameKey ''operation4'')
   \<and> Instance FirstState [] ''operation4'' \<noteq> PyNone"
  by (simp add: returns_value_for_none_def operation_wrapper_def test_function_def op_id_def
      op_name_def)

text \<open>
  C4, amended. An exception of the function is the wrapper's. When the declared output is
  "none", the wrapper returns the value the function returned, unchecked, paired with the
  operation's name. Otherwise a value that is not an instance of the declared output type,
  \<^verbatim>\<open>None\<close> included, makes the wrapper fail with \<^verbatim>\<open>InvalidOperationReturnError\<close>, and
  an instance is returned paired with the declared output type. A result of the wrapper
  is always the function's value paired with the operation's id.
\<close>

theorem wrapper_result:
  "(body (func op) kw = Inl e \<longrightarrow> operation_wrapper op kw = Inl e)
   \<and> (body (func op) kw = Inr v \<and> provides op = NoneType \<longrightarrow>
        operation_wrapper op kw = Inr (v, NameKey (op_name op)))
   \<and> (body (func op) kw = Inr v \<and> provides op \<noteq> NoneType \<and> \<not> isinstance v (provides op) \<longrightarrow>
        operation_wrapper op kw = Inl (InvalidOperationReturnError (op_name op) WrongInstance))
   \<and> (body (func op) kw = Inr PyNone \<and> provides op \<noteq> NoneType \<longrightarrow>
        operation_wrapper op kw = Inl (InvalidOperationReturnError (op_name op) WrongInstance))
   \<and> (body (func op) kw = Inr v \<and> provides op \<noteq> NoneType \<and> isinstance v (provides op) \<longrightarrow>
        operation_wrapper op kw = Inr (v, TypeKey (provides op)))
   \<and> (\<forall>r. operation_wrapper op kw = Inr r \<longrightarrow> snd r = op_id op \<and> body (func op) kw = Inr (fst r))"
  by (cases v) (auto simp: operation_wrapper_def op_id_def split: sum.splits)

theorem wrapper_result_witness:
  "operation_wrapper (fst unit1) (snd unit1)
     = Inr (Instance FirstState [] ''operation1'', TypeKey FirstState)
   \<and> operation_wrapper (fst unit1\<lparr>func := (func (fst unit1))\<lparr>body := (\<lambda>kw. Inr PyNone)\<rparr>\<rparr>) (snd unit1)
     = Inl (InvalidOperationReturnError ''operation1'' WrongInstance)"
  using wrapper_result [of "fst unit1" "snd unit1" KeyError "Instance FirstState [] ''operation1''"]
    wrapper_result [of "fst unit1\<lparr>func := (func (fst unit1))\<lparr>body := (\<lambda>kw. Inr PyNone)\<rparr>\<rparr>"
      "snd unit1" KeyError PyNone]
  by (simp add: unit1_def operation1_def test_function_def FirstState_def SimpleOrder_def
      op_name_def)

section \<open>Registration\<close>

definition registered :: "pyfunc list \<Rightarrow> plan_id \<Rightarrow> Plan" where
  "registered fs =
     (case register_all fs new_classes of Inl e \<Rightarrow> new_classes | Inr classes \<Rightarrow> classes)"

lemmas fixture_defs = test_function_def SimpleOrder_def FirstState_def SecondState_def
  ThirdState_def ForthState_def FifthState_def operation1_def operation2_def operation3_def
  operation4_def operation5_def operation6_def new_classes_def PlanMeta_new_def new_sorter_def
  registered_def unit1_def

lemmas registration_defs = operation_def make_operation_def register_operation_def
  owning_plan_def dict_del_def dict_keys_def op_id_def op_name_def

subsection \<open>The five conditions of the specification\<close>

definition declared_parameters :: "pyfunc \<Rightarrow> string list" where
  "declared_parameters f = take (co_argcount f) (co_varnames f)"

text \<open>
  The conditions under which the specification lets registration fail with
  InvalidSignature, in its words: no declared return type; a declared return type that
  is neither "no output" nor a state type; zero declared parameters; a parameter without
  a type declaration; a parameter whose type is neither a Plan type nor a state type.
\<close>

definition spec_invalid_signature :: "pyfunc \<Rightarrow> bool" where
  "spec_invalid_signature f =
     ((case map_of (type_hints f) ''return'' of
         None \<Rightarrow> True
       | Some ret \<Rightarrow> ret \<noteq> NoneType \<and> \<not> issubclass_State ret)
      \<or> declared_parameters f = []
      \<or> list_ex (\<lambda>n. map_of (type_hints f) n = None) (declared_parameters f)
      \<or> list_ex (\<lambda>n. case map_of (type_hints f) n of
                        None \<Rightarrow> False
                      | Some T \<Rightarrow> \<not> issubclass_Plan T \<and> \<not> issubclass_State T)
           (declared_parameters f))"

text \<open>
  \<^verbatim>\<open>operation1\<close> of the tests with a local variable \<^verbatim>\<open>state\<close> in its body: one
  typed parameter, a state type as return type.
\<close>

definition with_local_variable :: pyfunc where
  "with_local_variable =
     (test_function ''operation1'' [(''plan'', SimpleOrder)] FirstState)
       \<lparr>co_varnames := [''plan'', ''state'']\<rparr>"

text \<open>
  C2. The code reads the names to check from \<^verbatim>\<open>func.__code__.co_varnames\<close>, which
  holds the local variables after the parameters. A function that meets none of the five
  conditions and has a local variable is rejected, on an empty registry, with
  InvalidSignature "has the following untyped arguements", naming the local variable.
\<close>

theorem local_variable_rejected:
  "spec_invalid_signature with_local_variable = False
   \<and> declared_parameters with_local_variable = [''plan'']
   \<and> onward_operations (new_classes ''SimpleOrder'') = []
   \<and> operation with_local_variable new_classes
       = Inl (InvalidOperationSignatureError ''operation1'' (UntypedArguments [''state'']))"
  by (simp add: spec_invalid_signature_def declared_parameters_def with_local_variable_def
      test_function_def SimpleOrder_def FirstState_def operation_def make_operation_def
      dict_del_def dict_keys_def new_classes_def PlanMeta_new_def)

subsection \<open>What an accepted signature gives\<close>

lemma map_of_dict_key: "k \<in> set (dict_keys d) \<Longrightarrow> \<exists>v. map_of d k = Some v"
  by (cases "map_of d k") (auto simp: dict_keys_def map_of_eq_None_iff)

lemma dict_set_append: "k \<notin> set (dict_keys d) \<Longrightarrow> dict_set k v d = d @ [(k, v)]"
  by (induction d) (auto simp: dict_keys_def)

lemma collect_depends_Inr:
  "collect_depends fn hints depends hm = Inr (depends', hm') \<Longrightarrow>
   depends' = depends @ map snd hints"
  by (induction fn hints depends hm rule: collect_depends.induct) (auto split: if_splits)

lemma make_operation_Inr:
  assumes "make_operation f = Inr (op, plan)"
  shows "func op = f"
    and "\<exists>n T rest. dict_del ''return'' (type_hints f) = (n, T) # rest
           \<and> owning_plan T = Inr plan \<and> dependencies op = T # map snd rest"
    and "map_of (type_hints f) ''return'' = Some (provides op)"
proof -
  from assms obtain ret depends hm first_arg tl where
    ret: "map_of (type_hints f) ''return'' = Some ret"
    and cd: "collect_depends (fname f) (dict_del ''return'' (type_hints f)) [] [] = Inr (depends, hm)"
    and dep: "depends = first_arg # tl"
    and own: "owning_plan first_arg = Inr plan"
    and op: "op = \<lparr>func = f, dependencies = depends, provides = ret,
                   hint_map = hm, is_async = iscoroutinefunction f\<rparr>"
    by (auto simp: make_operation_def Let_def split: option.splits if_splits sum.splits list.splits)
  from op show "func op = f" by simp
  from op ret show "map_of (type_hints f) ''return'' = Some (provides op)" by simp
  from collect_depends_Inr [OF cd] dep
  have "map snd (dict_del ''return'' (type_hints f)) = first_arg # tl" by simp
  then obtain n rest where "dict_del ''return'' (type_hints f) = (n, first_arg) # rest"
    and "tl = map snd rest"
    by (cases "dict_del ''return'' (type_hints f)") auto
  with own op dep
  show "\<exists>n T rest. dict_del ''return'' (type_hints f) = (n, T) # rest
           \<and> owning_plan T = Inr plan \<and> dependencies op = T # map snd rest"
    by auto
qed

lemma owning_plan_Inr:
  "owning_plan T = Inr plan \<Longrightarrow> T = PlanCls plan \<or> (\<exists>s. T = StateCls s (Some plan))"
  by (cases T; cases "case T of StateCls _ p \<Rightarrow> p | _ \<Rightarrow> None")
     (auto simp: owning_plan_def split: pytype.splits)

subsection \<open>Duplicate providers\<close>

text \<open>
  When the checks of the signature accept the function and the id of its descriptor (its
  declared state type, or its name when it returns \<^verbatim>\<open>None\<close>) is a key of the
  registry of the owning Plan class, \<^verbatim>\<open>operation\<close> fails with
  \<^verbatim>\<open>TooManyProvidersError\<close>, naming the operation registered under that key: "cannot
  both provide the same State" when the state type is a key, "cannot each return None and
  share the same function name" otherwise. No registry is changed.
\<close>

lemma duplicate_provider:
  assumes "make_operation f = Inr (op, plan)"
    and "op_id op \<in> set (dict_keys (onward_operations (classes plan)))"
  shows "\<exists>other. map_of (onward_operations (classes plan)) (op_id op) = Some other
           \<and> operation f classes =
               Inl (TooManyProvidersError (fname f)
                     (if TypeKey (provides op) \<in> set (dict_keys (onward_operations (classes plan)))
                      then SameState (op_name other) else SameName (op_name other)))"
proof -
  from map_of_dict_key [OF assms(2)] obtain other where
    other: "map_of (onward_operations (classes plan)) (op_id op) = Some other" by blast
  have name: "op_name op = fname f"
    using make_operation_Inr(1) [OF assms(1)] by (simp add: op_name_def)
  have cond: "TypeKey (provides op) \<in> set (dict_keys (onward_operations (classes plan)))
      \<or> NameKey (op_name op) \<in> set (dict_keys (onward_operations (classes plan)))"
    using assms(2) by (auto simp: op_id_def split: if_splits)
  show ?thesis
    using other cond name assms(1)
    by (auto simp: operation_def register_operation_def)
qed

lemma duplicate_provider_twice:
  "operation operation1 (registered [operation1])
     = Inl (TooManyProvidersError ''operation1'' (SameState ''operation1''))
   \<and> operation (test_function ''operation4'' [(''plan'', SimpleOrder)] NoneType)
       (registered [operation4])
     = Inl (TooManyProvidersError ''operation4'' (SameName ''operation4''))"
proof -
  have 1: "make_operation operation1 = Inr (fst unit1, ''SimpleOrder'')"
    by (simp add: fixture_defs registration_defs)
  have 2: "op_id (fst unit1) \<in> set (dict_keys (onward_operations (registered [operation1] ''SimpleOrder'')))"
    by (simp add: fixture_defs registration_defs)
  let ?f = "test_function ''operation4'' [(''plan'', SimpleOrder)] NoneType"
  let ?op = "\<lparr>func = ?f, dependencies = [SimpleOrder], provides = NoneType,
              hint_map = [(SimpleOrder, ''plan'')], is_async = False\<rparr>"
  have 3: "make_operation ?f = Inr (?op, ''SimpleOrder'')"
    by (simp add: fixture_defs registration_defs)
  have 4: "op_id ?op \<in> set (dict_keys (onward_operations (registered [operation4] ''SimpleOrder'')))"
    by (simp add: fixture_defs registration_defs)
  show ?thesis
    using duplicate_provider [of operation1 "fst unit1" "''SimpleOrder''" "registered [operation1]", OF 1 2]
      duplicate_provider [of ?f ?op "''SimpleOrder''" "registered [operation4]", OF 3 4]
    by (simp add: fixture_defs registration_defs)
qed

text \<open>
  C3. The checks of the signature run first, and they take every local variable for a
  parameter without a type. A second function that returns \<^verbatim>\<open>FirstState\<close>, meets none
  of the five conditions of the specification and has a local variable is registered
  while \<^verbatim>\<open>FirstState\<close> is a key of the registry of its Plan class: \<^verbatim>\<open>operation\<close>
  fails with \<^verbatim>\<open>InvalidOperationSignatureError\<close> "has the following untyped
  arguements", not with \<^verbatim>\<open>TooManyProvidersError\<close>.
\<close>

theorem duplicate_hidden_by_local_variable:
  "spec_invalid_signature with_local_variable = False
   \<and> map_of (type_hints with_local_variable) ''return'' = Some FirstState
   \<and> dict_keys (onward_operations (registered [operation1] ''SimpleOrder'')) = [TypeKey FirstState]
   \<and> operation with_local_variable (registered [operation1])
       = Inl (InvalidOperationSignatureError ''operation1'' (UntypedArguments [''state'']))"
  by (simp add: spec_invalid_signature_def declared_parameters_def with_local_variable_def
      fixture_defs registration_defs)

subsection \<open>The owning Plan class\<close>

text \<open>
  When \<^verbatim>\<open>operation\<close> accepts a function, the hints of its parameters start with an
  entry whose type is a Plan class, or a state class whose \<^verbatim>\<open>__onward_plan__\<close> is a
  Plan class; the registry of that class, and of no other class, is changed: the new
  descriptor is added to it under its id. The types of the other hints do not occur in
  the choice of the class.
\<close>

lemma owner_is_first_hint:
  assumes "operation f classes = Inr classes'"
  shows "\<exists>n T rest plan op.
           dict_del ''return'' (type_hints f) = (n, T) # rest
           \<and> (T = PlanCls plan \<or> (\<exists>s. T = StateCls s (Some plan)))
           \<and> (\<forall>p. p \<noteq> plan \<longrightarrow> classes' p = classes p)
           \<and> func op = f
           \<and> op_id op \<notin> set (dict_keys (onward_operations (classes plan)))
           \<and> onward_operations (classes' plan) = onward_operations (classes plan) @ [(op_id op, op)]"
proof -
  from assms obtain op plan registry where
    mk: "make_operation f = Inr (op, plan)"
    and reg: "register_operation op (onward_operations (classes plan)) = Inr registry"
    and cls: "classes' = classes(plan := (classes plan)\<lparr>onward_operations := registry\<rparr>)"
    by (auto simp: operation_def split: sum.splits)
  from reg have fresh: "op_id op \<notin> set (dict_keys (onward_operations (classes plan)))"
    and registry: "registry = dict_set (op_id op) op (onward_operations (classes plan))"
    by (auto simp: register_operation_def op_id_def split: if_splits option.splits)
  from make_operation_Inr(2) [OF mk] obtain n T rest where
    hints: "dict_del ''return'' (type_hints f) = (n, T) # rest" and own: "owning_plan T = Inr plan"
    by blast
  have "onward_operations (classes' plan) = onward_operations (classes plan) @ [(op_id op, op)]"
    using cls registry dict_set_append [OF fresh] by simp
  moreover have "\<forall>p. p \<noteq> plan \<longrightarrow> classes' p = classes p"
    using cls by simp
  ultimately show ?thesis
    using hints owning_plan_Inr [OF own] make_operation_Inr(1) [OF mk] fresh by blast
qed

lemma owner_is_first_hint_example:
  "\<exists>classes'. operation operation2 (registered [operation1]) = Inr classes'
     \<and> map fst (onward_operations (classes' ''SimpleOrder'')) = [TypeKey FirstState, TypeKey SecondState]
     \<and> classes' ''AddUsers'' = registered [operation1] ''AddUsers''"
proof -
  obtain classes' where ok: "operation operation2 (registered [operation1]) = Inr classes'"
    by (simp add: fixture_defs registration_defs)
  from owner_is_first_hint [OF ok] obtain n T rest plan op where
    hints: "dict_del ''return'' (type_hints operation2) = (n, T) # rest"
    and T: "T = PlanCls plan \<or> (\<exists>s. T = StateCls s (Some plan))"
    and others: "\<forall>p. p \<noteq> plan \<longrightarrow> classes' p = registered [operation1] p"
    and f: "func op = operation2"
    and ops: "onward_operations (classes' plan)
                = onward_operations (registered [operation1] plan) @ [(op_id op, op)]"
    by blast
  from hints T have plan: "plan = ''SimpleOrder''"
    by (auto simp: fixture_defs dict_del_def)
  from others plan have "classes' ''AddUsers'' = registered [operation1] ''AddUsers''" by simp
  moreover have "map fst (onward_operations (classes' ''SimpleOrder'')) = [TypeKey FirstState, TypeKey SecondState]"
    using ok by (auto simp: fixture_defs registration_defs)
  ultimately show ?thesis using ok by (intro exI [of _ classes']) simp
qed

text \<open>
  \<^verbatim>\<open>def f(a: AState, /, b: B) -> None\<close>, where \<^verbatim>\<open>AState\<close> is a state of the Plan
  class \<^verbatim>\<open>A\<close> and \<^verbatim>\<open>B\<close> is another Plan class: on CPython 3.11 the hints of this
  function are in the order \<^verbatim>\<open>b\<close>, \<^verbatim>\<open>a\<close>, \<^verbatim>\<open>return\<close>.
\<close>

definition positional_only_first :: pyfunc where
  "positional_only_first =
     \<lparr>fname = ''f'',
      type_hints = [(''b'', PlanCls ''B''), (''a'', StateCls ''AState'' (Some ''A'')),
                    (''return'', NoneType)],
      co_varnames = [''a'', ''b''], co_argcount = 2, iscoroutinefunction = False,
      body = (\<lambda>kw. Inr PyNone)\<rparr>"

text \<open>
  C10. \<^verbatim>\<open>first_arg = depends[0]\<close> is the first entry of the hints, not the first
  declared parameter. The function above is accepted; its first declared parameter is
  \<^verbatim>\<open>a\<close>, a state of \<^verbatim>\<open>A\<close>, and its descriptor is inserted into the registry of
  \<^verbatim>\<open>B\<close>, the type of its second parameter, while the registry of \<^verbatim>\<open>A\<close> stays empty.
\<close>

theorem owner_is_not_first_parameter:
  "declared_parameters positional_only_first = [''a'', ''b'']
   \<and> map_of (type_hints positional_only_first) ''a'' = Some (StateCls ''AState'' (Some ''A''))
   \<and> spec_invalid_signature positional_only_first = False
   \<and> dict_keys (onward_operations (registered [positional_only_first] ''B'')) = [NameKey ''f'']
   \<and> onward_operations (registered [positional_only_first] ''A'') = []"
  by (simp add: spec_invalid_signature_def declared_parameters_def positional_only_first_def
      fixture_defs registration_defs)

section \<open>Timeouts of join_next\<close>

text \<open>
  C7. The threaded executor passes its timeout to \<^verbatim>\<open>as_completed\<close>: when no future
  completes in time, \<^verbatim>\<open>join_next\<close> raises \<^verbatim>\<open>TimeoutError\<close> and the futures stay as
  they are. The asyncio executor never reads its timeout: with one task in flight that
  does not complete within the timeout, \<^verbatim>\<open>join_next\<close> still waits for the task, returns
  its result and removes it from the tasks.
\<close>

theorem asyncio_join_next_ignores_timeout:
  "join_next (Asyncio \<lparr>tasks = [(TypeKey FirstState, unit1)], loop_is_closed = False,
                       thread_sync = False\<rparr>) (Some 0) \<lparr>first_done = 0, in_time = False\<rparr>
     = (Asyncio \<lparr>tasks = [], loop_is_closed = False, thread_sync = False\<rparr>,
        Inr (Instance FirstState [] ''operation1'', TypeKey FirstState))
   \<and> join_next (Threaded \<lparr>futures = [unit1], pool_shutdown = False\<rparr>) (Some 0) \<lparr>first_done = 0, in_time = False\<rparr>
     = (Threaded \<lparr>futures = [unit1], pool_shutdown = False\<rparr>, Inl TimeoutError)"
  by (simp add: Asyncio_join_next_def Asyncio_running_def Threaded_join_next_def
      Threaded_running_def run_partial_def operation_wrapper_def unit1_def operation1_def
      test_function_def FirstState_def SimpleOrder_def op_id_def dict_keys_def dict_del_def)

lemma Asyncio_join_next_timeout:
  "Asyncio_join_next ex t c = Asyncio_join_next ex None \<lparr>first_done = first_done c, in_time = True\<rparr>"
  by (simp add: Asyncio_join_next_def)

section \<open>Invariants of the sorter\<close>

text \<open>
  What \<open>npredecessors\<close> counts. A node \<open>i\<close> that is not done contributes to a node
  \<open>k\<close> once for every occurrence of \<open>k\<close> among its successors; \<open>pend d k\<close> is the
  number of edges into \<open>k\<close> from nodes that are not done, \<open>n_out\<close> the number of
  nodes passed out or done, \<open>n_done\<close> the number of nodes done.
\<close>

definition contrib :: "NodeInfo \<Rightarrow> key \<Rightarrow> nat" where
  "contrib i k = (if npredecessors i = NODE_DONE then 0 else count_list (successors i) k)"

definition wsum :: "(NodeInfo \<Rightarrow> nat) \<Rightarrow> (key \<times> NodeInfo) list \<Rightarrow> nat" where
  "wsum w d = sum_list (map (\<lambda>pi. w (snd pi)) d)"

definition pend :: "(key \<times> NodeInfo) list \<Rightarrow> key \<Rightarrow> nat" where
  "pend d k = wsum (\<lambda>i. contrib i k) d"

definition n_out :: "(key \<times> NodeInfo) list \<Rightarrow> nat" where
  "n_out d = wsum (\<lambda>i. if npredecessors i < 0 then 1 else 0) d"

definition n_done :: "(key \<times> NodeInfo) list \<Rightarrow> nat" where
  "n_done d = wsum (\<lambda>i. if npredecessors i = NODE_DONE then 1 else 0) d"

lemma keys_update_info [simp]: "dict_keys (update_info p f d) = dict_keys d"
  by (induction d) (auto simp: update_info_def dict_keys_def)

lemma map_of_update_info:
  "map_of (update_info p f d) k = (if k = p then map_option f (map_of d p) else map_of d k)"
  by (induction d) (auto simp: update_info_def)

lemma wsum_notin: "p \<notin> set (dict_keys d) \<Longrightarrow> wsum w (update_info p f d) = wsum w d"
  by (induction d) (auto simp: update_info_def dict_keys_def wsum_def)

lemma wsum_update_info:
  "distinct (dict_keys d) \<Longrightarrow> map_of d p = Some i \<Longrightarrow>
   wsum w (update_info p f d) + w i = wsum w d + w (f i)"
proof (induction d)
  case Nil
  then show ?case by simp
next
  case (Cons a d)
  show ?case
  proof (cases "fst a = p")
    case True
    with Cons.prems have "p \<notin> set (dict_keys d)" and "snd a = i"
      by (auto simp: dict_keys_def)
    then have "wsum w (update_info p f d) = wsum w d" by (simp add: wsum_notin)
    then have "wsum w (update_info p f (a # d)) = w (f i) + wsum w d"
      using True \<open>snd a = i\<close> by (cases a) (auto simp: update_info_def wsum_def)
    then show ?thesis using True \<open>snd a = i\<close> by (simp add: wsum_def)
  next
    case False
    with Cons.prems have "distinct (dict_keys d)" "map_of d p = Some i"
      by (auto simp: dict_keys_def)
    from Cons.IH [OF this] False show ?thesis
      by (cases a) (auto simp: update_info_def wsum_def)
  qed
qed

lemma wsum_zero: "wsum w d = 0 \<Longrightarrow> (p, i) \<in> set d \<Longrightarrow> w i = 0"
  by (induction d) (auto simp: wsum_def)

lemma pend_update_info:
  "distinct (dict_keys d) \<Longrightarrow> map_of d p = Some i \<Longrightarrow>
   pend (update_info p f d) k + contrib i k = pend d k + contrib (f i) k"
  unfolding pend_def by (rule wsum_update_info)

lemma keys_get_nodeinfo: "set (dict_keys (get_nodeinfo n d)) = insert n (set (dict_keys d))"
proof (cases "map_of d n")
  case None
  then show ?thesis by (simp add: get_nodeinfo_def dict_keys_def)
next
  case (Some i)
  then have "n \<in> set (dict_keys d)"
    by (auto simp: dict_keys_def dest!: map_of_SomeD intro: rev_image_eqI)
  with Some show ?thesis by (auto simp: get_nodeinfo_def)
qed

lemma distinct_get_nodeinfo:
  "distinct (dict_keys d) \<Longrightarrow> distinct (dict_keys (get_nodeinfo n d))"
proof (cases "map_of d n")
  case None
  then have "n \<notin> set (dict_keys d)" by (simp add: dict_keys_def map_of_eq_None_iff)
  with None show "distinct (dict_keys d) \<Longrightarrow> ?thesis" by (simp add: get_nodeinfo_def dict_keys_def)
next
  case (Some i)
  then show "distinct (dict_keys d) \<Longrightarrow> ?thesis" by (simp add: get_nodeinfo_def)
qed

lemma map_of_get_nodeinfo:
  "map_of (get_nodeinfo n d) k =
     (if k = n \<and> map_of d n = None then Some \<lparr>npredecessors = 0, successors = []\<rparr> else map_of d k)"
  by (auto simp: get_nodeinfo_def map_add_def split: option.splits)

lemma pend_get_nodeinfo [simp]: "pend (get_nodeinfo n d) k = pend d k"
  by (auto simp: get_nodeinfo_def pend_def wsum_def contrib_def NODE_DONE_def split: option.splits)

lemma map_of_get_nodeinfo_same: "\<exists>i. map_of (get_nodeinfo n d) n = Some i"
  by (simp add: map_of_get_nodeinfo)

text \<open>
  The nodes are well formed when no key occurs twice and every successor is a node. The
  counts are right, up to the successors \<open>rest\<close> that \<^verbatim>\<open>done\<close> has still to
  release, when a count that is not negative is the number of pending edges and a node
  passed out or done has none. The ready list holds, once each, the nodes whose count is
  zero.
\<close>

definition wf_nodes :: "(key \<times> NodeInfo) list \<Rightarrow> bool" where
  "wf_nodes d \<longleftrightarrow>
     distinct (dict_keys d) \<and>
     (\<forall>p i. map_of d p = Some i \<longrightarrow> set (successors i) \<subseteq> set (dict_keys d))"

definition counts_ok :: "(key \<times> NodeInfo) list \<Rightarrow> key list \<Rightarrow> bool" where
  "counts_ok d rest \<longleftrightarrow>
     (\<forall>k i. map_of d k = Some i \<longrightarrow>
        (if 0 \<le> npredecessors i
         then npredecessors i = int (pend d k + count_list rest k)
         else (npredecessors i = NODE_OUT \<or> npredecessors i = NODE_DONE)
              \<and> pend d k + count_list rest k = 0))"

definition ready_ok :: "(key \<times> NodeInfo) list \<Rightarrow> key list \<Rightarrow> bool" where
  "ready_ok d ready \<longleftrightarrow>
     distinct ready \<and> set ready = {k. \<exists>i. map_of d k = Some i \<and> npredecessors i = 0}"

text \<open>Before prepare: every count is the number of incoming edges, up to the edges of
  the node being added that are still to be created.\<close>

definition adding_ok :: "(key \<times> NodeInfo) list \<Rightarrow> key \<Rightarrow> nat \<Rightarrow> bool" where
  "adding_ok d node m \<longleftrightarrow>
     wf_nodes d \<and>
     (\<forall>k i. map_of d k = Some i \<longrightarrow>
        npredecessors i = int (pend d k) + (if k = node then int m else 0))"

lemma map_of_key: "map_of d k = Some i \<Longrightarrow> k \<in> set (dict_keys d)"
  by (auto simp: dict_keys_def dest!: map_of_SomeD intro: rev_image_eqI)

lemma adding_ok_not_done:
  "adding_ok d node m \<Longrightarrow> map_of d k = Some i \<Longrightarrow> npredecessors i \<noteq> NODE_DONE"
  by (auto simp: adding_ok_def NODE_DONE_def split: if_splits)

lemma wf_nodes_update_info:
  assumes "wf_nodes d" and "\<And>i. set (successors (f i)) \<subseteq> set (successors i) \<union> set (dict_keys d)"
  shows "wf_nodes (update_info p f d)"
  using assms unfolding wf_nodes_def
  by (auto simp: map_of_update_info split: if_splits) blast+

lemma wf_nodes_get_nodeinfo: "wf_nodes d \<Longrightarrow> wf_nodes (get_nodeinfo n d)"
  unfolding wf_nodes_def
  by (auto simp: distinct_get_nodeinfo keys_get_nodeinfo map_of_get_nodeinfo split: if_splits)

lemma pend_zero_notin:
  assumes "wf_nodes d" and "k \<notin> set (dict_keys d)"
  shows "pend d k = 0"
proof -
  have "contrib (snd x) k = 0" if "x \<in> set d" for x
  proof -
    from assms(1) that have "set (successors (snd x)) \<subseteq> set (dict_keys d)"
      unfolding wf_nodes_def dict_keys_def
      by (metis map_of_eq_Some_iff prod.collapse)
    with assms(2) show ?thesis by (auto simp: contrib_def count_list_0_iff)
  qed
  then show ?thesis by (simp add: pend_def wsum_def)
qed

lemma adding_ok_add_successor:
  assumes "adding_ok d node (Suc m)" and "node \<in> set (dict_keys d)"
  shows "adding_ok (add_successor node p d) node m"
    and "node \<in> set (dict_keys (add_successor node p d))"
proof -
  let ?d1 = "get_nodeinfo p d"
  let ?f = "\<lambda>i. i\<lparr>successors := successors i @ [node]\<rparr>"
  from assms(1) have wf: "wf_nodes d" by (simp add: adding_ok_def)
  then have wf1: "wf_nodes ?d1" by (rule wf_nodes_get_nodeinfo)
  obtain i where i: "map_of ?d1 p = Some i" using map_of_get_nodeinfo_same by blast
  have nd: "npredecessors i \<noteq> NODE_DONE"
    using i adding_ok_not_done [OF assms(1)]
    by (auto simp: map_of_get_nodeinfo NODE_DONE_def split: if_splits)
  have node1: "node \<in> set (dict_keys ?d1)" using assms(2) by (simp add: keys_get_nodeinfo)
  show "node \<in> set (dict_keys (add_successor node p d))"
    using node1 by (simp add: add_successor_def)
  have wf2: "wf_nodes (add_successor node p d)"
    unfolding add_successor_def using wf1 node1 by (intro wf_nodes_update_info) auto
  have pend2: "pend (add_successor node p d) k = pend d k + (if k = node then 1 else 0)" for k
  proof -
    from wf1 have "distinct (dict_keys ?d1)" by (simp add: wf_nodes_def)
    from pend_update_info [OF this i, of ?f k] nd
    show ?thesis by (auto simp: add_successor_def contrib_def)
  qed
  have "npredecessors j = int (pend (add_successor node p d) k) + (if k = node then int m else 0)"
    if "map_of (add_successor node p d) k = Some j" for k j
  proof -
    from that obtain j0 where j0: "map_of ?d1 k = Some j0" and np: "npredecessors j = npredecessors j0"
      by (auto simp: add_successor_def map_of_update_info split: if_splits)
    have "npredecessors j0 = int (pend d k) + (if k = node then int (Suc m) else 0)"
    proof (cases "map_of d k")
      case None
      with j0 have "j0 = \<lparr>npredecessors = 0, successors = []\<rparr>" and "k = p"
        by (auto simp: map_of_get_nodeinfo split: if_splits)
      moreover from None assms(2) have "k \<noteq> node"
        by (auto simp: dict_keys_def map_of_eq_None_iff)
      moreover have "pend d k = 0"
        using None wf by (intro pend_zero_notin) (simp_all add: dict_keys_def map_of_eq_None_iff)
      ultimately show ?thesis by simp
    next
      case (Some a)
      with j0 have "j0 = a" by (auto simp: map_of_get_nodeinfo split: if_splits)
      with Some assms(1) show ?thesis by (simp add: adding_ok_def)
    qed
    with np pend2 [of k] show ?thesis by simp
  qed
  with wf2 show "adding_ok (add_successor node p d) node m" by (simp add: adding_ok_def)
qed

lemma adding_ok_fold:
  "adding_ok d node (length preds) \<Longrightarrow> node \<in> set (dict_keys d) \<Longrightarrow>
   adding_ok (fold (add_successor node) preds d) node 0"
proof (induction preds arbitrary: d)
  case Nil
  then show ?case by simp
next
  case (Cons p preds)
  from Cons.prems have "adding_ok d node (Suc (length preds))" by simp
  from adding_ok_add_successor [OF this Cons.prems(2), of p] Cons.IH
  show ?case by simp
qed

lemma adding_ok_any: "adding_ok d node 0 \<Longrightarrow> adding_ok d node' 0"
  by (simp add: adding_ok_def)

lemma ts_add_adding_ok:
  assumes "adding_ok (node2info g) n0 0" and "ts_add g node preds = Inr g'"
  shows "adding_ok (node2info g') n0 0" and "ready_nodes g' = None"
    and "npassedout g' = npassedout g" and "nfinished g' = nfinished g"
proof -
  let ?f = "\<lambda>i. i\<lparr>npredecessors := npredecessors i + int (length preds)\<rparr>"
  let ?d1 = "get_nodeinfo node (node2info g)"
  let ?d2 = "update_info node ?f ?d1"
  from assms(2) have unprepared: "ready_nodes g = None"
    and g': "g' = g\<lparr>node2info := fold (add_successor node) preds ?d2\<rparr>"
    by (auto simp: ts_add_def Let_def split: if_splits)
  from g' unprepared show "ready_nodes g' = None" "npassedout g' = npassedout g"
    "nfinished g' = nfinished g" by simp_all
  from assms(1) have ok: "adding_ok (node2info g) node 0" by (rule adding_ok_any)
  then have wf1: "wf_nodes ?d1" by (simp add: adding_ok_def wf_nodes_get_nodeinfo)
  have wf0: "wf_nodes (node2info g)" using ok by (simp add: adding_ok_def)
  have ok1: "adding_ok ?d1 node 0"
    unfolding adding_ok_def
  proof (intro conjI allI impI)
    show "wf_nodes ?d1" by (rule wf1)
  next
    fix k i assume ki: "map_of ?d1 k = Some i"
    show "npredecessors i = int (pend ?d1 k) + (if k = node then int 0 else 0)"
    proof (cases "map_of (node2info g) k")
      case None
      with ki have "i = \<lparr>npredecessors = 0, successors = []\<rparr>"
        by (auto simp: map_of_get_nodeinfo split: if_splits)
      moreover have "pend (node2info g) k = 0"
        using None wf0 by (intro pend_zero_notin) (simp_all add: dict_keys_def map_of_eq_None_iff)
      ultimately show ?thesis by simp
    next
      case (Some a)
      with ki have "i = a" by (auto simp: map_of_get_nodeinfo split: if_splits)
      with Some ok show ?thesis by (simp add: adding_ok_def)
    qed
  qed
  obtain i where i: "map_of ?d1 node = Some i" using map_of_get_nodeinfo_same by blast
  have nd: "npredecessors i \<noteq> NODE_DONE" "npredecessors (?f i) \<noteq> NODE_DONE"
    using ok1 i by (auto simp: adding_ok_def NODE_DONE_def)
  have pend2: "pend ?d2 k = pend ?d1 k" for k
  proof -
    from wf1 have "distinct (dict_keys ?d1)" by (simp add: wf_nodes_def)
    from pend_update_info [OF this i, of ?f k] nd show ?thesis by (simp add: contrib_def)
  qed
  have ok2: "adding_ok ?d2 node (length preds)"
    unfolding adding_ok_def
  proof (intro conjI allI impI)
    show "wf_nodes ?d2" using wf1 by (intro wf_nodes_update_info) auto
  next
    fix k j assume "map_of ?d2 k = Some j"
    then show "npredecessors j = int (pend ?d2 k) + (if k = node then int (length preds) else 0)"
      using ok1 pend2 [of k]
      by (auto simp: map_of_update_info adding_ok_def split: if_splits)
  qed
  have "node \<in> set (dict_keys ?d2)" by (simp add: keys_get_nodeinfo)
  from adding_ok_fold [OF ok2 this] g'
  show "adding_ok (node2info g') n0 0" by (auto intro: adding_ok_any)
qed

text \<open>The invariant of a prepared sorter between two calls.\<close>

definition graph_ok :: "TopologicalSorter \<Rightarrow> bool" where
  "graph_ok g \<longleftrightarrow>
     wf_nodes (node2info g) \<and> counts_ok (node2info g) [] \<and>
     (\<exists>r. ready_nodes g = Some r \<and> ready_ok (node2info g) r) \<and>
     npassedout g = n_out (node2info g) \<and> nfinished g = n_done (node2info g)"

lemma map_of_distinct_iff:
  "distinct (dict_keys d) \<Longrightarrow> map_of d k = Some i \<longleftrightarrow> (k, i) \<in> set d"
  by (simp add: dict_keys_def)

lemma wsum_all_zero: "\<forall>x\<in>set d. w (snd x) = 0 \<Longrightarrow> wsum w d = 0"
  by (simp add: wsum_def)

lemma ts_prepare_graph_ok:
  assumes "adding_ok (node2info g) n 0" and "npassedout g = 0" and "nfinished g = 0"
    and "ts_prepare g = Inr g'"
  shows "graph_ok g'" and "node2info g' = node2info g"
proof -
  let ?d = "node2info g"
  let ?r = "map fst (filter (\<lambda>(k, i). npredecessors i = 0) ?d)"
  from assms(4) have g': "g' = g\<lparr>ready_nodes := Some ?r\<rparr>"
    by (auto simp: ts_prepare_def split: if_splits)
  then show "node2info g' = node2info g" by simp
  from assms(1) have wf: "wf_nodes ?d"
    and cnt: "\<And>k i. map_of ?d k = Some i \<Longrightarrow> npredecessors i = int (pend ?d k)"
    by (auto simp: adding_ok_def)
  from wf have dist: "distinct (dict_keys ?d)" by (simp add: wf_nodes_def)
  have nonneg: "\<forall>x\<in>set ?d. 0 \<le> npredecessors (snd x)"
  proof
    fix x assume "x \<in> set ?d"
    then have "map_of ?d (fst x) = Some (snd x)" using dist by (simp add: map_of_distinct_iff)
    from cnt [OF this] show "0 \<le> npredecessors (snd x)" by simp
  qed
  have "counts_ok ?d []"
    unfolding counts_ok_def using cnt by auto
  moreover have "ready_ok ?d ?r"
    unfolding ready_ok_def
  proof
    show "distinct ?r" using dist by (simp add: dict_keys_def distinct_map_filter)
    show "set ?r = {k. \<exists>i. map_of ?d k = Some i \<and> npredecessors i = 0}"
      using dist by (auto simp: map_of_distinct_iff intro: rev_image_eqI)
  qed
  moreover have "n_out ?d = 0"
    unfolding n_out_def using nonneg by (intro wsum_all_zero) auto
  moreover have "n_done ?d = 0"
    unfolding n_done_def using nonneg by (intro wsum_all_zero) (auto simp: NODE_DONE_def)
  ultimately show "graph_ok g'"
    using wf assms(2,3) g' by (simp add: graph_ok_def)
qed

abbreviation set_out :: "NodeInfo \<Rightarrow> NodeInfo" where
  "set_out \<equiv> \<lambda>i. i\<lparr>npredecessors := NODE_OUT\<rparr>"

lemma mark_out_all:
  assumes "mark_out result d = Inr d'" and "distinct (dict_keys d)" and "distinct result"
    and "\<forall>k\<in>set result. \<exists>i. map_of d k = Some i \<and> npredecessors i = 0"
  shows "dict_keys d' = dict_keys d
    \<and> (\<forall>k. map_of d' k = (if k \<in> set result then map_option set_out (map_of d k) else map_of d k))
    \<and> (\<forall>k. pend d' k = pend d k)
    \<and> n_out d' = n_out d + length result
    \<and> n_done d' = n_done d"
  using assms
proof (induction result arbitrary: d)
  case Nil
  then show ?case by simp
next
  case (Cons n result)
  let ?d1 = "update_info n set_out d"
  have step: "mark_out result ?d1 = Inr d'" and dist1: "distinct (dict_keys ?d1)"
    and distr: "distinct result" and nn: "n \<notin> set result"
    and ni: "\<exists>i. map_of d n = Some i \<and> npredecessors i = 0"
    and rest: "\<forall>k\<in>set result. \<exists>i. map_of ?d1 k = Some i \<and> npredecessors i = 0"
    using Cons.prems by (auto simp: map_of_update_info split: option.splits)
  from ni obtain i where i: "map_of d n = Some i" "npredecessors i = 0" by blast
  note IH = Cons.IH [OF step dist1 distr rest]
  have "map_of d' k = (if k \<in> set (n # result) then map_option set_out (map_of d k) else map_of d k)" for k
    using IH nn by (auto simp: map_of_update_info option.map_comp comp_def)
  moreover have "pend d' k = pend d k" for k
  proof -
    from pend_update_info [OF Cons.prems(2) i(1), of set_out k] i(2)
    have "pend ?d1 k = pend d k" by (simp add: contrib_def NODE_OUT_def NODE_DONE_def)
    with IH show ?thesis by simp
  qed
  moreover have "n_out d' = n_out d + length (n # result)"
  proof -
    from wsum_update_info [OF Cons.prems(2) i(1), of "\<lambda>i. if npredecessors i < 0 then 1 else 0" set_out] i(2)
    have "n_out ?d1 = n_out d + 1" by (simp add: n_out_def NODE_OUT_def)
    with IH show ?thesis by simp
  qed
  moreover have "n_done d' = n_done d"
  proof -
    from wsum_update_info [OF Cons.prems(2) i(1), of "\<lambda>i. if npredecessors i = NODE_DONE then 1 else 0" set_out] i(2)
    have "n_done ?d1 = n_done d" by (simp add: n_done_def NODE_OUT_def NODE_DONE_def)
    with IH show ?thesis by simp
  qed
  ultimately show ?case using IH by simp
qed


lemma counts_ok_nonneg:
  "counts_ok d rest \<Longrightarrow> map_of d k = Some i \<Longrightarrow> 0 \<le> npredecessors i \<Longrightarrow>
   npredecessors i = int (pend d k + count_list rest k)"
  unfolding counts_ok_def by (drule spec [of _ k], drule spec [of _ i]) simp

lemma counts_ok_neg:
  "counts_ok d rest \<Longrightarrow> map_of d k = Some i \<Longrightarrow> npredecessors i < 0 \<Longrightarrow>
   (npredecessors i = NODE_OUT \<or> npredecessors i = NODE_DONE)
   \<and> pend d k = 0 \<and> count_list rest k = 0"
  unfolding counts_ok_def by (drule spec [of _ k], drule spec [of _ i]) simp

lemma counts_ok_transfer:
  assumes "counts_ok d rest" and "map_of d k = Some i"
    and "pend d' k + count_list rest' k = pend d k + count_list rest k"
  shows "if 0 \<le> npredecessors i then npredecessors i = int (pend d' k + count_list rest' k)
         else (npredecessors i = NODE_OUT \<or> npredecessors i = NODE_DONE)
              \<and> pend d' k + count_list rest' k = 0"
proof (cases "0 \<le> npredecessors i")
  case True
  with counts_ok_nonneg [OF assms(1,2)] assms(3) show ?thesis by simp
next
  case False
  with counts_ok_neg [OF assms(1,2)] assms(3) show ?thesis by simp
qed

lemma ts_get_ready_graph_ok:
  assumes "graph_ok g" and "ts_get_ready g = Inr (nodes, g')"
  shows "graph_ok g'"
    and "ready_nodes g = Some nodes" and "ready_nodes g' = Some []"
    and "dict_keys (node2info g') = dict_keys (node2info g)"
    and "\<And>k. map_of (node2info g') k =
           (if k \<in> set nodes then map_option set_out (map_of (node2info g) k)
            else map_of (node2info g) k)"
    and "distinct nodes"
    and "set nodes = {k. \<exists>i. map_of (node2info g) k = Some i \<and> npredecessors i = 0}"
proof -
  let ?d = "node2info g"
  from assms(2) obtain d' where r: "ready_nodes g = Some nodes"
    and mo: "mark_out nodes ?d = Inr d'"
    and g': "g' = g\<lparr>node2info := d', ready_nodes := Some [],
                     npassedout := npassedout g + length nodes\<rparr>"
    by (auto simp: ts_get_ready_def split: option.splits sum.splits)
  from assms(1) r have wf: "wf_nodes ?d" and cnt: "counts_ok ?d []" and rdy: "ready_ok ?d nodes"
    and np: "npassedout g = n_out ?d" and nf: "nfinished g = n_done ?d"
    by (auto simp: graph_ok_def)
  from wf have dist: "distinct (dict_keys ?d)" by (simp add: wf_nodes_def)
  from rdy have dn: "distinct nodes"
    and sn: "set nodes = {k. \<exists>i. map_of ?d k = Some i \<and> npredecessors i = 0}"
    by (auto simp: ready_ok_def)
  from sn have zero: "\<forall>k\<in>set nodes. \<exists>i. map_of ?d k = Some i \<and> npredecessors i = 0" by auto
  note M = mark_out_all [OF mo dist dn zero]
  show "ready_nodes g = Some nodes" by (rule r)
  show "ready_nodes g' = Some []" using g' by simp
  show "dict_keys (node2info g') = dict_keys ?d" using M g' by simp
  show m: "\<And>k. map_of (node2info g') k =
           (if k \<in> set nodes then map_option set_out (map_of ?d k) else map_of ?d k)"
    using M g' by simp
  show "distinct nodes" by (rule dn)
  show "set nodes = {k. \<exists>i. map_of ?d k = Some i \<and> npredecessors i = 0}" by (rule sn)
  have wf': "wf_nodes d'"
    unfolding wf_nodes_def
  proof (intro conjI allI impI)
    show "distinct (dict_keys d')" using M dist by simp
  next
    fix p i assume "map_of d' p = Some i"
    then obtain i0 where "map_of ?d p = Some i0" "successors i = successors i0"
      using M by (auto split: if_splits)
    with wf M show "set (successors i) \<subseteq> set (dict_keys d')" by (auto simp: wf_nodes_def)
  qed
  have cnt': "counts_ok d' []"
    unfolding counts_ok_def
  proof (intro allI impI)
    fix k i assume ki: "map_of d' k = Some i"
    show "if 0 \<le> npredecessors i then npredecessors i = int (pend d' k + count_list [] k)
          else (npredecessors i = NODE_OUT \<or> npredecessors i = NODE_DONE)
               \<and> pend d' k + count_list [] k = 0"
    proof (cases "k \<in> set nodes")
      case True
      with sn obtain i0 where i0: "map_of ?d k = Some i0" "npredecessors i0 = 0" by auto
      with counts_ok_nonneg [OF cnt, of k i0] have "pend ?d k = 0" by simp
      moreover from True ki i0 M have "npredecessors i = NODE_OUT" by auto
      ultimately show ?thesis using M by (simp add: NODE_OUT_def)
    next
      case False
      with ki M have "map_of ?d k = Some i" by simp
      from counts_ok_transfer [OF cnt this, of d' "[]"] M show ?thesis by simp
    qed
  qed
  have rdy': "ready_ok d' []"
    unfolding ready_ok_def
  proof (intro conjI)
    show "distinct ([]::key list)" by simp
    have "npredecessors i \<noteq> 0" if "map_of d' k = Some i" for k i
    proof (cases "k \<in> set nodes")
      case True
      with that M show ?thesis by (auto simp: NODE_OUT_def)
    next
      case False
      with that M have "map_of ?d k = Some i" by simp
      with False sn show ?thesis by auto
    qed
    then show "set [] = {k. \<exists>i. map_of d' k = Some i \<and> npredecessors i = 0}" by auto
  qed
  show "graph_ok g'"
    using wf' cnt' rdy' M np nf g' by (simp add: graph_ok_def)
qed


abbreviation dec :: "NodeInfo \<Rightarrow> NodeInfo" where
  "dec \<equiv> \<lambda>i. i\<lparr>npredecessors := npredecessors i - 1\<rparr>"

lemma release_successors_ok:
  assumes "release_successors rest d ready = Inr (d', ready')"
    and "wf_nodes d" and "counts_ok d rest" and "ready_ok d ready"
  shows "wf_nodes d' \<and> counts_ok d' [] \<and> ready_ok d' ready'
    \<and> dict_keys d' = dict_keys d
    \<and> (\<forall>k. map_option successors (map_of d' k) = map_option successors (map_of d k))
    \<and> (\<forall>k i. map_of d k = Some i \<longrightarrow>
          (\<exists>i'. map_of d' k = Some i'
             \<and> (npredecessors i < 0 \<longrightarrow> npredecessors i' = npredecessors i)
             \<and> (0 \<le> npredecessors i \<longrightarrow> 0 \<le> npredecessors i')))
    \<and> n_out d' = n_out d \<and> n_done d' = n_done d"
  using assms
proof (induction rest arbitrary: d ready)
  case Nil
  then show ?case by auto
next
  case (Cons s rest)
  from Cons.prems(1) obtain si where si: "map_of d s = Some si"
    and step: "release_successors rest (update_info s dec d)
                 (if npredecessors si - 1 = 0 then ready @ [s] else ready) = Inr (d', ready')"
    by (auto split: option.splits)
  let ?d1 = "update_info s dec d"
  let ?r1 = "if npredecessors si - 1 = 0 then ready @ [s] else ready"
  from Cons.prems(2) have dist: "distinct (dict_keys d)" by (simp add: wf_nodes_def)
  have pos: "1 \<le> npredecessors si"
  proof (cases "0 \<le> npredecessors si")
    case True
    from counts_ok_nonneg [OF Cons.prems(3) si True] show ?thesis by simp
  next
    case False
    with counts_ok_neg [OF Cons.prems(3) si] show ?thesis by simp
  qed
  have pend1: "pend ?d1 k = pend d k" for k
    using pend_update_info [OF dist si, of dec k] pos
    by (simp add: contrib_def NODE_DONE_def)
  have wf1: "wf_nodes ?d1"
    using Cons.prems(2) by (intro wf_nodes_update_info) auto
  have cnt1: "counts_ok ?d1 rest"
    unfolding counts_ok_def
  proof (intro allI impI)
    fix k i assume ki: "map_of ?d1 k = Some i"
    show "if 0 \<le> npredecessors i then npredecessors i = int (pend ?d1 k + count_list rest k)
          else (npredecessors i = NODE_OUT \<or> npredecessors i = NODE_DONE)
               \<and> pend ?d1 k + count_list rest k = 0"
    proof (cases "k = s")
      case True
      with ki si have "i = dec si" by (simp add: map_of_update_info)
      moreover from counts_ok_nonneg [OF Cons.prems(3) si] pos
      have "npredecessors si = int (pend d s + count_list (s # rest) s)" by simp
      ultimately show ?thesis using True pos pend1 [of s] by simp
    next
      case False
      with ki have "map_of d k = Some i" by (simp add: map_of_update_info)
      from counts_ok_transfer [OF Cons.prems(3) this, of ?d1 rest] False pend1 [of k]
      show ?thesis by simp
    qed
  qed
  have rdy1: "ready_ok ?d1 ?r1"
  proof -
    from Cons.prems(4) have dr: "distinct ready"
      and sr: "set ready = {k. \<exists>i. map_of d k = Some i \<and> npredecessors i = 0}"
      by (auto simp: ready_ok_def)
    from sr si pos have snot: "s \<notin> set ready" by auto
    have "set ?r1 = {k. \<exists>i. map_of ?d1 k = Some i \<and> npredecessors i = 0}"
      using sr si snot by (auto simp: map_of_update_info split: if_splits)
    moreover have "distinct ?r1" using dr snot by simp
    ultimately show ?thesis by (simp add: ready_ok_def)
  qed
  note IH = Cons.IH [OF step wf1 cnt1 rdy1]
  have succ: "map_option successors (map_of d' k) = map_option successors (map_of d k)" for k
    using IH by (auto simp: map_of_update_info option.map_comp comp_def)
  have stat: "\<exists>i'. map_of d' k = Some i'
             \<and> (npredecessors i < 0 \<longrightarrow> npredecessors i' = npredecessors i)
             \<and> (0 \<le> npredecessors i \<longrightarrow> 0 \<le> npredecessors i')"
    if "map_of d k = Some i" for k i
  proof (cases "k = s")
    case True
    with that si have "map_of ?d1 k = Some (dec si)" "i = si" by (simp_all add: map_of_update_info)
    with IH pos show ?thesis by fastforce
  next
    case False
    with that have "map_of ?d1 k = Some i" by (simp add: map_of_update_info)
    with IH show ?thesis by blast
  qed
  have "n_out ?d1 = n_out d"
    using wsum_update_info [OF dist si, of "\<lambda>i. if npredecessors i < 0 then 1 else 0" dec] pos
    by (simp add: n_out_def)
  moreover have "n_done ?d1 = n_done d"
    using wsum_update_info [OF dist si, of "\<lambda>i. if npredecessors i = NODE_DONE then 1 else 0" dec] pos
    by (simp add: n_done_def NODE_DONE_def)
  ultimately show ?case using IH succ stat by auto
qed

abbreviation set_done :: "NodeInfo \<Rightarrow> NodeInfo" where
  "set_done \<equiv> \<lambda>i. i\<lparr>npredecessors := NODE_DONE\<rparr>"

lemma ts_done_graph_ok:
  assumes "graph_ok g" and "ts_done g node = Inr g'"
  shows "graph_ok g'
    \<and> dict_keys (node2info g') = dict_keys (node2info g)
    \<and> (\<forall>k. map_option successors (map_of (node2info g') k)
            = map_option successors (map_of (node2info g) k))
    \<and> (\<exists>i. map_of (node2info g) node = Some i \<and> npredecessors i = NODE_OUT)
    \<and> (\<exists>i. map_of (node2info g') node = Some i \<and> npredecessors i = NODE_DONE)
    \<and> (\<forall>k i. k \<noteq> node \<longrightarrow> map_of (node2info g) k = Some i \<longrightarrow>
          (\<exists>i'. map_of (node2info g') k = Some i'
             \<and> (npredecessors i < 0 \<longrightarrow> npredecessors i' = npredecessors i)
             \<and> (0 \<le> npredecessors i \<longrightarrow> 0 \<le> npredecessors i')))"
proof -
  let ?d = "node2info g"
  let ?d1 = "update_info node set_done ?d"
  from assms(2) obtain ready ni d' ready' where r: "ready_nodes g = Some ready"
    and ni: "map_of ?d node = Some ni" and out: "npredecessors ni = NODE_OUT"
    and rel: "release_successors (successors ni) ?d1 ready = Inr (d', ready')"
    and g': "g' = g\<lparr>node2info := d', ready_nodes := Some ready', nfinished := nfinished g + 1\<rparr>"
    by (auto simp: ts_done_def split: option.splits if_splits sum.splits)
  from assms(1) r have wf: "wf_nodes ?d" and cnt: "counts_ok ?d []" and rdy: "ready_ok ?d ready"
    and np: "npassedout g = n_out ?d" and nf: "nfinished g = n_done ?d"
    by (auto simp: graph_ok_def)
  from wf have dist: "distinct (dict_keys ?d)" by (simp add: wf_nodes_def)
  have pend1: "pend ?d1 k + count_list (successors ni) k = pend ?d k" for k
    using pend_update_info [OF dist ni, of set_done k] out
    by (simp add: contrib_def NODE_OUT_def NODE_DONE_def)
  have wf1: "wf_nodes ?d1" using wf by (intro wf_nodes_update_info) auto
  have cnt1: "counts_ok ?d1 (successors ni)"
    unfolding counts_ok_def
  proof (intro allI impI)
    fix k i assume ki: "map_of ?d1 k = Some i"
    show "if 0 \<le> npredecessors i
          then npredecessors i = int (pend ?d1 k + count_list (successors ni) k)
          else (npredecessors i = NODE_OUT \<or> npredecessors i = NODE_DONE)
               \<and> pend ?d1 k + count_list (successors ni) k = 0"
    proof (cases "k = node")
      case True
      with ki ni have "npredecessors i = NODE_DONE" by (auto simp: map_of_update_info)
      moreover from counts_ok_neg [OF cnt ni] out have "pend ?d node = 0"
        by (simp add: NODE_OUT_def)
      ultimately show ?thesis using True pend1 [of node] by (simp add: NODE_DONE_def)
    next
      case False
      with ki have "map_of ?d k = Some i" by (simp add: map_of_update_info)
      from counts_ok_transfer [OF cnt this, of ?d1 "successors ni"] pend1 [of k]
      show ?thesis by simp
    qed
  qed
  have rdy1: "ready_ok ?d1 ready"
  proof -
    have "{k. \<exists>i. map_of ?d1 k = Some i \<and> npredecessors i = 0}
        = {k. \<exists>i. map_of ?d k = Some i \<and> npredecessors i = 0}"
      using ni out by (auto simp: map_of_update_info NODE_OUT_def NODE_DONE_def split: if_splits)
    with rdy show ?thesis by (simp add: ready_ok_def)
  qed
  note R = release_successors_ok [OF rel wf1 cnt1 rdy1]
  have "n_out ?d1 = n_out ?d"
    using wsum_update_info [OF dist ni, of "\<lambda>i. if npredecessors i < 0 then 1 else 0" set_done] out
    by (simp add: n_out_def NODE_OUT_def NODE_DONE_def)
  moreover have "n_done ?d1 = n_done ?d + 1"
    using wsum_update_info [OF dist ni, of "\<lambda>i. if npredecessors i = NODE_DONE then 1 else 0" set_done] out
    by (simp add: n_done_def NODE_OUT_def NODE_DONE_def)
  ultimately have ok: "graph_ok g'"
    using R np nf g' by (simp add: graph_ok_def)
  have keys: "dict_keys (node2info g') = dict_keys ?d" using R g' by simp
  have succ: "map_option successors (map_of (node2info g') k) = map_option successors (map_of ?d k)" for k
    using R g' by (auto simp: map_of_update_info option.map_comp comp_def)
  have "map_of ?d1 node = Some (set_done ni)" using ni by (simp add: map_of_update_info)
  with R have "\<exists>i'. map_of d' node = Some i' \<and> npredecessors i' = NODE_DONE"
    by (fastforce simp: NODE_DONE_def)
  then have dn: "\<exists>i. map_of (node2info g') node = Some i \<and> npredecessors i = NODE_DONE"
    using g' by simp
  have other: "\<exists>i'. map_of (node2info g') k = Some i'
             \<and> (npredecessors i < 0 \<longrightarrow> npredecessors i' = npredecessors i)
             \<and> (0 \<le> npredecessors i \<longrightarrow> 0 \<le> npredecessors i')"
    if "k \<noteq> node" "map_of ?d k = Some i" for k i
  proof -
    from that have "map_of ?d1 k = Some i" by (simp add: map_of_update_info)
    with R g' show ?thesis by simp
  qed
  from ok keys succ ni out dn other show ?thesis by blast
qed

text \<open>
  The edges of the graph, from a node to each of its successors, and the edges that the
  registry asks for: from every dependency of a descriptor that is a state type to the
  key of the descriptor.
\<close>

definition graph_edges :: "(key \<times> NodeInfo) list \<Rightarrow> (key \<times> key) set" where
  "graph_edges d = {(p, k). k \<in> set (ts_successors d p)}"

definition state_dependencies :: "Operation \<Rightarrow> key list" where
  "state_dependencies op = map TypeKey (filter issubclass_State (dependencies op))"

definition dep_edges :: "(key \<times> Operation) list \<Rightarrow> (key \<times> key) set" where
  "dep_edges registry =
     set (concat (map (\<lambda>(k, op). map (\<lambda>p. (p, k)) (state_dependencies op)) registry))"

lemma ts_successors_update_npred:
  "(\<And>i. successors (f i) = successors i) \<Longrightarrow>
   ts_successors (update_info p f d) q = ts_successors d q"
  by (auto simp: ts_successors_def map_of_update_info split: option.splits)

lemma ts_successors_get_nodeinfo [simp]:
  "ts_successors (get_nodeinfo n d) q = ts_successors d q"
  by (auto simp: ts_successors_def map_of_get_nodeinfo split: option.splits)

lemma ts_successors_add_successor:
  "ts_successors (add_successor node p d) q =
     (if q = p then ts_successors d p @ [node] else ts_successors d q)"
  by (auto simp: add_successor_def ts_successors_def map_of_update_info map_of_get_nodeinfo
      split: option.splits)

lemma graph_edges_add_successor:
  "graph_edges (add_successor node p d) = insert (p, node) (graph_edges d)"
  by (auto simp: graph_edges_def ts_successors_add_successor split: if_splits)

lemma keys_add_successor:
  "set (dict_keys (add_successor node p d)) = insert p (set (dict_keys d))"
  by (simp add: add_successor_def keys_get_nodeinfo)

lemma fold_add_successor:
  "graph_edges (fold (add_successor node) preds d) = graph_edges d \<union> (\<lambda>p. (p, node)) ` set preds
   \<and> set (dict_keys (fold (add_successor node) preds d)) = set (dict_keys d) \<union> set preds"
  by (induction preds arbitrary: d) (auto simp: graph_edges_add_successor keys_add_successor)

lemma ts_add_edges:
  assumes "ts_add g node preds = Inr g'"
  shows "graph_edges (node2info g') = graph_edges (node2info g) \<union> (\<lambda>p. (p, node)) ` set preds"
    and "set (dict_keys (node2info g')) = insert node (set (dict_keys (node2info g)) \<union> set preds)"
proof -
  let ?f = "\<lambda>i. i\<lparr>npredecessors := npredecessors i + int (length preds)\<rparr>"
  let ?d2 = "update_info node ?f (get_nodeinfo node (node2info g))"
  from assms have g': "node2info g' = fold (add_successor node) preds ?d2"
    by (auto simp: ts_add_def Let_def split: if_splits)
  have "graph_edges ?d2 = graph_edges (node2info g)"
    by (simp add: graph_edges_def ts_successors_update_npred)
  with g' fold_add_successor [of node preds ?d2]
  show "graph_edges (node2info g') = graph_edges (node2info g) \<union> (\<lambda>p. (p, node)) ` set preds"
    and "set (dict_keys (node2info g')) = insert node (set (dict_keys (node2info g)) \<union> set preds)"
    by (auto simp: keys_get_nodeinfo)
qed

lemma add_registry_ok:
  assumes "add_registry items g = Inr g'" and "adding_ok (node2info g) n 0"
    and "ready_nodes g = None"
  shows "adding_ok (node2info g') n 0 \<and> ready_nodes g' = None
    \<and> npassedout g' = npassedout g \<and> nfinished g' = nfinished g
    \<and> graph_edges (node2info g') = graph_edges (node2info g) \<union> dep_edges items
    \<and> set (dict_keys (node2info g')) =
        set (dict_keys (node2info g)) \<union> set (dict_keys items) \<union> fst ` dep_edges items"
  using assms
proof (induction items arbitrary: g)
  case Nil
  then show ?case by (auto simp: dep_edges_def dict_keys_def adding_ok_def)
next
  case (Cons a items)
  obtain state oper where a: "a = (state, oper)" by (cases a)
  from Cons.prems(1) a obtain g1 where
    add: "ts_add g state (state_dependencies oper) = Inr g1"
    and rest: "add_registry items g1 = Inr g'"
    by (auto simp: state_dependencies_def split: sum.splits)
  note A = ts_add_adding_ok [OF Cons.prems(2) add]
  note E = ts_add_edges [OF add]
  note IH = Cons.IH [OF rest A(1,2)]
  have de: "dep_edges (a # items) = (\<lambda>p. (p, state)) ` set (state_dependencies oper) \<union> dep_edges items"
    by (auto simp: dep_edges_def a)
  have "fst ` dep_edges (a # items) = set (state_dependencies oper) \<union> fst ` dep_edges items"
    unfolding de by (auto simp: image_Un image_image)
  with IH A E de a show ?case
    by (auto simp: dict_keys_def)
qed

lemma adding_ok_new_sorter: "adding_ok (node2info new_sorter) n 0"
  by (simp add: adding_ok_def new_sorter_def wf_nodes_def dict_keys_def)

lemma Plan_init_ok:
  assumes "onward_operation_graph cls = new_sorter" and "Plan_init cls = Inr self"
  shows "graph_ok (onward_operation_graph self)"
    and "graph_edges (node2info (onward_operation_graph self)) = dep_edges (onward_operations cls)"
    and "set (dict_keys (node2info (onward_operation_graph self))) =
           set (dict_keys (onward_operations cls)) \<union> fst ` dep_edges (onward_operations cls)"
    and "\<forall>k i. map_of (node2info (onward_operation_graph self)) k = Some i \<longrightarrow> 0 \<le> npredecessors i"
    and "\<exists>g. self = cls\<lparr>onward_operation_graph := g\<rparr>"
proof -
  from assms(2) obtain g g' where add: "add_registry (onward_operations cls) new_sorter = Inr g"
    and prep: "ts_prepare g = Inr g'" and self: "self = cls\<lparr>onward_operation_graph := g'\<rparr>"
    by (auto simp: Plan_init_def assms(1) split: sum.splits)
  have "ready_nodes new_sorter = None" by (simp add: new_sorter_def)
  note A = add_registry_ok [OF add adding_ok_new_sorter [of undefined] this]
  from A have ok: "adding_ok (node2info g) undefined 0" and "npassedout g = 0" "nfinished g = 0"
    by (simp_all add: new_sorter_def)
  note P = ts_prepare_graph_ok [OF this prep]
  show "graph_ok (onward_operation_graph self)" using P self by simp
  have "graph_edges (node2info new_sorter) = {}"
    by (simp add: graph_edges_def new_sorter_def ts_successors_def)
  with A P self
  show "graph_edges (node2info (onward_operation_graph self)) = dep_edges (onward_operations cls)"
    by simp
  from A P self
  show "set (dict_keys (node2info (onward_operation_graph self))) =
           set (dict_keys (onward_operations cls)) \<union> fst ` dep_edges (onward_operations cls)"
    by (simp add: new_sorter_def dict_keys_def)
  from ok P self
  show "\<forall>k i. map_of (node2info (onward_operation_graph self)) k = Some i \<longrightarrow> 0 \<le> npredecessors i"
    by (auto simp: adding_ok_def)
  from self show "\<exists>g. self = cls\<lparr>onward_operation_graph := g\<rparr>" by blast
qed

section \<open>The graph of a Plan class and its instances\<close>

text \<open>The class of the tests with its first two operations, and its first instance.\<close>

definition two_operations :: Plan where
  "two_operations = registered [operation1, operation2] ''SimpleOrder''"

definition instance_of :: "Plan \<Rightarrow> Plan" where
  "instance_of cls = (case Plan_init cls of Inl e \<Rightarrow> cls | Inr self \<Rightarrow> self)"

lemma two_operations_eval:
  "onward_operations two_operations =
     [(TypeKey FirstState, fst unit1),
      (TypeKey SecondState,
       \<lparr>func = operation2, dependencies = [SimpleOrder, FirstState], provides = SecondState,
        hint_map = [(SimpleOrder, ''plan''), (FirstState, ''first'')], is_async = False\<rparr>)]"
  "onward_operation_graph two_operations = new_sorter"
  "onward_states two_operations = []"
  "onward_executor two_operations = Synchronous \<lparr>schedule = []\<rparr>"
  "plan_name two_operations = ''SimpleOrder''"
  by (simp_all add: two_operations_def fixture_defs registration_defs)

lemma two_operations_init:
  "Plan_init two_operations = Inr (two_operations\<lparr>onward_operation_graph :=
     \<lparr>node2info = [(TypeKey FirstState, \<lparr>npredecessors = 0, successors = [TypeKey SecondState]\<rparr>),
                   (TypeKey SecondState, \<lparr>npredecessors = 1, successors = []\<rparr>)],
      ready_nodes = Some [TypeKey FirstState], npassedout = 0, nfinished = 0\<rparr>\<rparr>)"
  apply (simp add: Plan_init_def two_operations_eval)
  apply (simp add: unit1_def new_sorter_def ts_add_def get_nodeinfo_def update_info_def
      add_successor_def SimpleOrder_def FirstState_def SecondState_def)
  apply (simp add: ts_prepare_def find_cycle_def dict_keys_def ts_successors_def)
  done

text \<open>
  C8, as the specification states it, fails: the \<^verbatim>\<open>TopologicalSorter\<close> is created once,
  with the class, by \<^verbatim>\<open>PlanMeta.__new__\<close>, and \<^verbatim>\<open>Plan.__init__\<close> adds the registry to
  that one object and prepares it. Constructing a second instance adds to the prepared
  sorter, which raises \<^verbatim>\<open>ValueError\<close>.
\<close>

theorem second_instance_counterexample:
  "onward_operation_graph two_operations = new_sorter
   \<and> Plan_init two_operations = Inr (instance_of two_operations)
   \<and> Plan_init (instance_of two_operations)
       = Inl (ValueError ''Nodes cannot be added after a call to prepare()'')"
  by (simp add: instance_of_def two_operations_init two_operations_eval)
     (simp add: Plan_init_def two_operations_eval ts_add_def)

text \<open>
  C8, amended. A Plan class has one graph, created with the class. Constructing the first
  instance of a class with a non-empty registry adds every descriptor's key to that graph
  with an edge from each of its dependencies that is a state type (and none from a Plan
  type), and prepares the graph. Constructing a second instance of the same class fails
  with \<^verbatim>\<open>ValueError\<close>.
\<close>

theorem graph_shared_by_instances:
  assumes "onward_operation_graph cls = new_sorter" and "Plan_init cls = Inr self"
    and "onward_operations cls \<noteq> []"
  shows "graph_edges (node2info (onward_operation_graph self)) = dep_edges (onward_operations cls)
    \<and> set (dict_keys (node2info (onward_operation_graph self))) =
        set (dict_keys (onward_operations cls)) \<union> fst ` dep_edges (onward_operations cls)
    \<and> ready_nodes (onward_operation_graph self) \<noteq> None
    \<and> onward_operations self = onward_operations cls
    \<and> Plan_init self = Inl (ValueError ''Nodes cannot be added after a call to prepare()'')"
proof -
  note I = Plan_init_ok [OF assms(1,2)]
  from I(1) have prepared: "ready_nodes (onward_operation_graph self) \<noteq> None"
    by (auto simp: graph_ok_def)
  from I(5) have ops: "onward_operations self = onward_operations cls" by auto
  from assms(3) obtain state oper items where "onward_operations cls = (state, oper) # items"
    by (cases "onward_operations cls") auto
  with ops prepared
  have "Plan_init self = Inl (ValueError ''Nodes cannot be added after a call to prepare()'')"
    by (simp add: Plan_init_def ts_add_def)
  with I prepared ops show ?thesis by simp
qed

theorem graph_shared_by_instances_witness:
  "graph_edges (node2info (onward_operation_graph (instance_of two_operations)))
     = {(TypeKey FirstState, TypeKey SecondState)}
   \<and> Plan_init (instance_of two_operations)
       = Inl (ValueError ''Nodes cannot be added after a call to prepare()'')"
proof -
  have 1: "onward_operation_graph two_operations = new_sorter" by (simp add: two_operations_eval)
  have 2: "Plan_init two_operations = Inr (instance_of two_operations)"
    by (simp add: instance_of_def two_operations_init)
  have 3: "onward_operations two_operations \<noteq> []" by (simp add: two_operations_eval)
  have "dep_edges (onward_operations two_operations) = {(TypeKey FirstState, TypeKey SecondState)}"
    by (simp add: dep_edges_def state_dependencies_def two_operations_eval unit1_def
        SimpleOrder_def FirstState_def)
  with graph_shared_by_instances [OF 1 2 3] show ?thesis by simp
qed

section \<open>Invariants of the run\<close>

text \<open>
  A node has been surfaced when \<^verbatim>\<open>get_ready\<close> has passed it out (it may be done
  since). A Plan is in order when its graph is, the graph has the edges of the registry,
  and every state type whose node is done has a value in the result mapping. The
  dependencies of a key are done when every state-type dependency of its descriptor is
  done in the graph and has a value.
\<close>

definition surfaced :: "TopologicalSorter \<Rightarrow> key \<Rightarrow> bool" where
  "surfaced g k \<longleftrightarrow> (\<exists>i. map_of (node2info g) k = Some i \<and> npredecessors i < 0)"

definition is_done :: "TopologicalSorter \<Rightarrow> key \<Rightarrow> bool" where
  "is_done g k \<longleftrightarrow> (\<exists>i. map_of (node2info g) k = Some i \<and> npredecessors i = NODE_DONE)"

definition plan_ok :: "Plan \<Rightarrow> bool" where
  "plan_ok self \<longleftrightarrow>
     graph_ok (onward_operation_graph self) \<and>
     dep_edges (onward_operations self) \<subseteq> graph_edges (node2info (onward_operation_graph self)) \<and>
     (\<forall>T. is_done (onward_operation_graph self) (TypeKey T) \<longrightarrow>
          map_of (onward_states self) T \<noteq> None)"

definition dependencies_done :: "Plan \<Rightarrow> key \<Rightarrow> bool" where
  "dependencies_done self k \<longleftrightarrow>
     (\<forall>op. map_of (onward_operations self) k = Some op \<longrightarrow>
        (\<forall>T\<in>set (dependencies op). issubclass_State T \<longrightarrow>
           is_done (onward_operation_graph self) (TypeKey T)
           \<and> get_state_value self T \<noteq> None))"

lemma map_of_dict_set: "map_of (dict_set k v d) k' = (if k' = k then Some v else map_of d k')"
  by (induction d) auto

lemma pend_zero_pred_done:
  assumes "pend d k = 0" and "map_of d q = Some j" and "k \<in> set (successors j)"
  shows "npredecessors j = NODE_DONE"
proof -
  from assms(2) have "(q, j) \<in> set d" by (rule map_of_SomeD)
  with assms(1) have "contrib j k = 0" unfolding pend_def by (rule wsum_zero)
  with assms(3) show ?thesis by (auto simp: contrib_def count_list_0_iff split: if_splits)
qed

lemma dep_edges_iff:
  "(q, k) \<in> dep_edges registry \<longleftrightarrow>
     (\<exists>op. (k, op) \<in> set registry \<and> q \<in> set (state_dependencies op))"
  by (auto simp: dep_edges_def)

lemma graph_edges_D:
  "(q, k) \<in> graph_edges d \<Longrightarrow> \<exists>j. map_of d q = Some j \<and> k \<in> set (successors j)"
  by (cases "map_of d q") (auto simp: graph_edges_def ts_successors_def)

lemma graph_edges_cong:
  "(\<And>k. map_option successors (map_of d' k) = map_option successors (map_of d k)) \<Longrightarrow>
   graph_edges d' = graph_edges d"
proof -
  assume a: "\<And>k. map_option successors (map_of d' k) = map_option successors (map_of d k)"
  have "ts_successors d' q = ts_successors d q" for q
    using a [of q] by (cases "map_of d q"; cases "map_of d' q") (auto simp: ts_successors_def)
  then show ?thesis by (simp add: graph_edges_def)
qed

lemma next_operation_group_step:
  assumes "plan_ok self" and "next_operation_group self = Inr (nodes, self')"
  shows "plan_ok self'"
    and "distinct nodes"
    and "\<forall>k\<in>set nodes. \<not> surfaced (onward_operation_graph self) k"
    and "\<And>k. surfaced (onward_operation_graph self') k \<longleftrightarrow>
            surfaced (onward_operation_graph self) k \<or> k \<in> set nodes"
    and "\<And>k. is_done (onward_operation_graph self') k \<longleftrightarrow> is_done (onward_operation_graph self) k"
    and "\<exists>g. self' = self\<lparr>onward_operation_graph := g\<rparr>"
    and "dict_keys (node2info (onward_operation_graph self'))
           = dict_keys (node2info (onward_operation_graph self))"
    and "graph_edges (node2info (onward_operation_graph self'))
           = graph_edges (node2info (onward_operation_graph self))"
    and "\<forall>k\<in>set nodes. dependencies_done self' k"
    and "ready_nodes (onward_operation_graph self) = Some nodes"
    and "set nodes \<subseteq> set (dict_keys (node2info (onward_operation_graph self)))"
proof -
  let ?g = "onward_operation_graph self"
  let ?d = "node2info ?g"
  from assms(2) obtain g' where gr: "ts_get_ready ?g = Inr (nodes, g')"
    and self': "self' = self\<lparr>onward_operation_graph := g'\<rparr>"
    by (auto simp: next_operation_group_def split: sum.splits)
  from assms(1) have ok: "graph_ok ?g"
    and edges: "dep_edges (onward_operations self) \<subseteq> graph_edges ?d"
    and rec: "\<And>T. is_done ?g (TypeKey T) \<Longrightarrow> map_of (onward_states self) T \<noteq> None"
    by (auto simp: plan_ok_def)
  note G = ts_get_ready_graph_ok [OF ok gr]
  from ok have cnt: "counts_ok ?d []" by (simp add: graph_ok_def)
  show "distinct nodes" by (rule G(6))
  show ns: "\<forall>k\<in>set nodes. \<not> surfaced ?g k" using G(7) by (auto simp: surfaced_def)
  show "\<exists>g. self' = self\<lparr>onward_operation_graph := g\<rparr>" using self' by blast
  show "ready_nodes ?g = Some nodes" by (rule G(2))
  show "set nodes \<subseteq> set (dict_keys ?d)" using G(7) by (auto intro: map_of_key)
  show keys: "dict_keys (node2info (onward_operation_graph self')) = dict_keys ?d"
    using G(4) self' by simp
  show sf: "surfaced (onward_operation_graph self') k \<longleftrightarrow> surfaced ?g k \<or> k \<in> set nodes" for k
  proof (cases "k \<in> set nodes")
    case True
    with G(7) obtain i where "map_of ?d k = Some i" by auto
    with True G(5) [of k] self' show ?thesis by (simp add: surfaced_def NODE_OUT_def)
  next
    case False
    with G(5) [of k] self' show ?thesis by (simp add: surfaced_def)
  qed
  show dn: "is_done (onward_operation_graph self') k \<longleftrightarrow> is_done ?g k" for k
  proof (cases "k \<in> set nodes")
    case True
    with G(7) obtain i where "map_of ?d k = Some i" "npredecessors i = 0" by auto
    with True G(5) [of k] self' show ?thesis
      by (auto simp: is_done_def NODE_OUT_def NODE_DONE_def)
  next
    case False
    with G(5) [of k] self' show ?thesis by (simp add: is_done_def)
  qed
  have "map_option successors (map_of (node2info g') k) = map_option successors (map_of ?d k)" for k
    using G(5) [of k] self' by (auto simp: option.map_comp comp_def)
  then have "graph_edges (node2info g') = graph_edges ?d" by (rule graph_edges_cong)
  then show ge: "graph_edges (node2info (onward_operation_graph self')) = graph_edges ?d"
    using self' by simp
  show "plan_ok self'"
    using G(1) edges ge rec dn self' by (auto simp: plan_ok_def)
  show "\<forall>k\<in>set nodes. dependencies_done self' k"
  proof
    fix k assume k: "k \<in> set nodes"
    with G(7) obtain i where i: "map_of ?d k = Some i" "npredecessors i = 0" by auto
    from counts_ok_nonneg [OF cnt i(1)] i(2) have pz: "pend ?d k = 0" by simp
    show "dependencies_done self' k"
      unfolding dependencies_done_def
    proof (intro allI impI ballI)
      fix op T assume op: "map_of (onward_operations self') k = Some op"
        and T: "T \<in> set (dependencies op)" "issubclass_State T"
      from op self' have "(k, op) \<in> set (onward_operations self)" by (auto dest: map_of_SomeD)
      with T have "(TypeKey T, k) \<in> dep_edges (onward_operations self)"
        by (auto simp: dep_edges_iff state_dependencies_def)
      with edges have "(TypeKey T, k) \<in> graph_edges ?d" by blast
      from graph_edges_D [OF this] obtain j where j: "map_of ?d (TypeKey T) = Some j"
        "k \<in> set (successors j)" by blast
      from pend_zero_pred_done [OF pz j] j(1) have d: "is_done ?g (TypeKey T)"
        by (auto simp: is_done_def)
      with dn rec [OF d] self'
      show "is_done (onward_operation_graph self') (TypeKey T) \<and> get_state_value self' T \<noteq> None"
        by (simp add: get_state_value_def)
    qed
  qed
qed

lemma ts_done_status:
  assumes "graph_ok g" and "ts_done g node = Inr g'"
  shows "\<And>k. surfaced g' k \<longleftrightarrow> surfaced g k"
    and "\<And>k. is_done g' k \<longleftrightarrow> is_done g k \<or> k = node"
    and "surfaced g node" and "\<not> is_done g node"
proof -
  note D = ts_done_graph_ok [OF assms]
  from D obtain i0 where i0: "map_of (node2info g) node = Some i0" "npredecessors i0 = NODE_OUT"
    by blast
  from D obtain i1 where i1: "map_of (node2info g') node = Some i1" "npredecessors i1 = NODE_DONE"
    by blast
  from D have other: "\<And>k i. k \<noteq> node \<Longrightarrow> map_of (node2info g) k = Some i \<Longrightarrow>
          \<exists>i'. map_of (node2info g') k = Some i'
             \<and> (npredecessors i < 0 \<longrightarrow> npredecessors i' = npredecessors i)
             \<and> (0 \<le> npredecessors i \<longrightarrow> 0 \<le> npredecessors i')"
    by blast
  from D have keys: "dict_keys (node2info g') = dict_keys (node2info g)" by blast
  have before: "\<exists>i. map_of (node2info g) k = Some i" if "map_of (node2info g') k = Some i'" for k i'
    using map_of_key [OF that] keys map_of_dict_key [of k "node2info g"] by simp
  show "surfaced g node" using i0 by (auto simp: surfaced_def NODE_OUT_def)
  show "\<not> is_done g node" using i0 by (auto simp: is_done_def NODE_OUT_def NODE_DONE_def)
  show "surfaced g' k \<longleftrightarrow> surfaced g k" for k
  proof (cases "k = node")
    case True
    with i0 i1 show ?thesis by (auto simp: surfaced_def NODE_OUT_def NODE_DONE_def)
  next
    case False
    show ?thesis
    proof
      assume "surfaced g' k"
      then obtain i' where i': "map_of (node2info g') k = Some i'" "npredecessors i' < 0"
        by (auto simp: surfaced_def)
      from before [OF i'(1)] obtain i where i: "map_of (node2info g) k = Some i" by blast
      from other [OF False i] i' have "npredecessors i < 0" by auto
      with i show "surfaced g k" by (auto simp: surfaced_def)
    next
      assume "surfaced g k"
      then obtain i where i: "map_of (node2info g) k = Some i" "npredecessors i < 0"
        by (auto simp: surfaced_def)
      from other [OF False i(1)] i(2) show "surfaced g' k" by (auto simp: surfaced_def)
    qed
  qed
  show "is_done g' k \<longleftrightarrow> is_done g k \<or> k = node" for k
  proof (cases "k = node")
    case True
    with i1 show ?thesis by (auto simp: is_done_def)
  next
    case False
    show ?thesis
    proof
      assume "is_done g' k"
      then obtain i' where i': "map_of (node2info g') k = Some i'" "npredecessors i' = NODE_DONE"
        by (auto simp: is_done_def)
      from before [OF i'(1)] obtain i where i: "map_of (node2info g) k = Some i" by blast
      from other [OF False i] i' have "npredecessors i = NODE_DONE"
        by (cases "npredecessors i < 0") (auto simp: NODE_DONE_def)
      with i show "is_done g k \<or> k = node" by (auto simp: is_done_def)
    next
      assume "is_done g k \<or> k = node"
      with False obtain i where i: "map_of (node2info g) k = Some i" "npredecessors i = NODE_DONE"
        by (auto simp: is_done_def)
      from other [OF False i(1)] i(2) show "is_done g' k"
        by (auto simp: is_done_def NODE_DONE_def)
    qed
  qed
qed

lemma dispatch_Inr: "dispatch self nodes = Inr self' \<Longrightarrow> \<exists>ex. self' = self\<lparr>onward_executor := ex\<rparr>"
  by (auto simp: dispatch_def split: sum.splits prod.splits option.splits if_splits)

lemma record_result_Inr:
  assumes "record_result self v k = Inr self'"
  shows "onward_operations self' = onward_operations self"
    and "onward_operation_graph self' = onward_operation_graph self"
    and "onward_executor self' = onward_executor self"
    and "\<And>T. map_of (onward_states self') T =
           (if k = TypeKey T then Some v else map_of (onward_states self) T)"
    and "\<And>T. k = TypeKey T \<Longrightarrow> v \<noteq> PyNone"
  using assms
  by (auto simp: record_result_def map_of_dict_set split: key.splits if_splits option.splits)

lemma join_and_record_Inr:
  assumes "join_and_record c self = Inr self'"
  obtains ex v k self1 g where "join_next (onward_executor self) None c = (ex, Inr (v, k))"
    and "record_result (self\<lparr>onward_executor := ex\<rparr>) v k = Inr self1"
    and "ts_done (onward_operation_graph self) k = Inr g"
    and "self' = self1\<lparr>onward_operation_graph := g\<rparr>"
proof -
  from assms obtain ex v k self1 g where
    j: "join_next (onward_executor self) None c = (ex, Inr (v, k))"
    and r: "record_result (self\<lparr>onward_executor := ex\<rparr>) v k = Inr self1"
    and d: "ts_done (onward_operation_graph self1) k = Inr g"
    and s: "self' = self1\<lparr>onward_operation_graph := g\<rparr>"
    by (auto simp: join_and_record_def split: prod.splits sum.splits)
  from record_result_Inr(2) [OF r] d have "ts_done (onward_operation_graph self) k = Inr g" by simp
  with j r s that show ?thesis by blast
qed

lemma loop_rest_step:
  assumes "plan_ok self"
    and "(if nodes = [] then join_and_record c self else dispatch self nodes) = Inr self'"
  shows "plan_ok self'"
    and "\<And>k. surfaced (onward_operation_graph self') k \<longleftrightarrow> surfaced (onward_operation_graph self) k"
    and "\<And>k. is_done (onward_operation_graph self) k \<Longrightarrow> is_done (onward_operation_graph self') k"
    and "onward_operations self' = onward_operations self"
    and "dict_keys (node2info (onward_operation_graph self'))
           = dict_keys (node2info (onward_operation_graph self))"
    and "graph_edges (node2info (onward_operation_graph self'))
           = graph_edges (node2info (onward_operation_graph self))"
proof -
  let ?g = "onward_operation_graph self"
  let ?g' = "onward_operation_graph self'"
  have "plan_ok self' \<and> (\<forall>k. surfaced ?g' k \<longleftrightarrow> surfaced ?g k)
      \<and> (\<forall>k. is_done ?g k \<longrightarrow> is_done ?g' k)
      \<and> onward_operations self' = onward_operations self
      \<and> dict_keys (node2info ?g') = dict_keys (node2info ?g)
      \<and> graph_edges (node2info ?g') = graph_edges (node2info ?g)"
  proof (cases "nodes = []")
    case False
    with assms(2) have "dispatch self nodes = Inr self'" by simp
    from dispatch_Inr [OF this] obtain ex where "self' = self\<lparr>onward_executor := ex\<rparr>" by blast
    with assms(1) show ?thesis by (simp add: plan_ok_def)
  next
    case True
    with assms(2) have "join_and_record c self = Inr self'" by simp
    then obtain ex v k self1 g where
      r: "record_result (self\<lparr>onward_executor := ex\<rparr>) v k = Inr self1"
      and d: "ts_done ?g k = Inr g" and s: "self' = self1\<lparr>onward_operation_graph := g\<rparr>"
      by (rule join_and_record_Inr)
    note R = record_result_Inr [OF r]
    from assms(1) have ok: "graph_ok ?g"
      and edges: "dep_edges (onward_operations self) \<subseteq> graph_edges (node2info ?g)"
      and rec: "\<And>T. is_done ?g (TypeKey T) \<Longrightarrow> map_of (onward_states self) T \<noteq> None"
      by (auto simp: plan_ok_def)
    note D = ts_done_graph_ok [OF ok d]
    note S = ts_done_status [OF ok d]
    have g': "?g' = g" using s by simp
    from D have ge: "graph_edges (node2info g) = graph_edges (node2info ?g)"
      by (intro graph_edges_cong) blast
    have ops: "onward_operations self' = onward_operations self" using s R(1) by simp
    have "map_of (onward_states self') T \<noteq> None" if "is_done g (TypeKey T)" for T
    proof (cases "TypeKey T = k")
      case True
      with R(4) [of T] s show ?thesis by simp
    next
      case False
      with that S(2) [of "TypeKey T"] have "is_done ?g (TypeKey T)" by simp
      from rec [OF this] R(4) [of T] s show ?thesis by simp
    qed
    with D ge ops edges g' S show ?thesis by (simp add: plan_ok_def)
  qed
  then show "plan_ok self'"
    and "\<And>k. surfaced ?g' k \<longleftrightarrow> surfaced ?g k"
    and "\<And>k. is_done ?g k \<Longrightarrow> is_done ?g' k"
    and "onward_operations self' = onward_operations self"
    and "dict_keys (node2info ?g') = dict_keys (node2info ?g)"
    and "graph_edges (node2info ?g') = graph_edges (node2info ?g)"
    by blast+
qed

lemma loop_body_step:
  assumes "plan_ok self" and "loop_body c self = Inr self''"
    and "next_operation_group self = Inr (nodes, self')"
  shows "plan_ok self''"
    and "\<And>k. surfaced (onward_operation_graph self'') k \<longleftrightarrow>
            surfaced (onward_operation_graph self) k \<or> k \<in> set nodes"
    and "\<And>k. is_done (onward_operation_graph self) k \<Longrightarrow> is_done (onward_operation_graph self'') k"
    and "onward_operations self'' = onward_operations self"
    and "dict_keys (node2info (onward_operation_graph self''))
           = dict_keys (node2info (onward_operation_graph self))"
    and "graph_edges (node2info (onward_operation_graph self''))
           = graph_edges (node2info (onward_operation_graph self))"
proof -
  from assms(2,3) have
    r: "(if nodes = [] then join_and_record c self' else dispatch self' nodes) = Inr self''"
    by (simp add: loop_body_def)
  note N = next_operation_group_step [OF assms(1,3)]
  note R = loop_rest_step [OF N(1) r]
  from N(6) have ops: "onward_operations self' = onward_operations self" by auto
  show "plan_ok self''" by (rule R(1))
  show "surfaced (onward_operation_graph self'') k \<longleftrightarrow>
            surfaced (onward_operation_graph self) k \<or> k \<in> set nodes" for k
    using R(2) [of k] N(4) [of k] by simp
  show "is_done (onward_operation_graph self) k \<Longrightarrow> is_done (onward_operation_graph self'') k" for k
    using R(3) [of k] N(5) [of k] by simp
  show "onward_operations self'' = onward_operations self" using R(4) ops by simp
  show "dict_keys (node2info (onward_operation_graph self''))
           = dict_keys (node2info (onward_operation_graph self))" using R(5) N(7) by simp
  show "graph_edges (node2info (onward_operation_graph self''))
           = graph_edges (node2info (onward_operation_graph self))" using R(6) N(8) by simp
qed

lemma loop_body_next:
  "loop_body c self = Inr self'' \<Longrightarrow> \<exists>nodes self'. next_operation_group self = Inr (nodes, self')"
  by (cases "next_operation_group self") (auto simp: loop_body_def)










lemma Plan_init_plan_ok:
  assumes "onward_operation_graph cls = new_sorter" and "Plan_init cls = Inr self"
  shows "plan_ok self" and "\<And>k. \<not> surfaced (onward_operation_graph self) k"
    and "onward_operations self = onward_operations cls"
proof -
  note I = Plan_init_ok [OF assms]
  have nonneg: "0 \<le> npredecessors i"
    if "map_of (node2info (onward_operation_graph self)) k = Some i" for k i
    using I(4) that by blast
  show ns: "\<not> surfaced (onward_operation_graph self) k" for k
    using nonneg [of k] by (fastforce simp: surfaced_def)
  have "\<not> is_done (onward_operation_graph self) k" for k
    using nonneg [of k] by (fastforce simp: is_done_def NODE_DONE_def)
  moreover from I(5) show ops: "onward_operations self = onward_operations cls" by auto
  ultimately show "plan_ok self" using I(1,2) by (simp add: plan_ok_def)
qed

section \<open>Every run of a runnable plan completes\<close>

subsection \<open>Executors that accept and return every unit\<close>















subsection \<open>Operations that can be called and return what they declare\<close>








subsection \<open>The graph makes progress\<close>













subsection \<open>Every iteration of the loop succeeds\<close>












subsection \<open>Construction succeeds on an acyclic registry\<close>







section \<open>A run of the first two operations of the tests\<close>

definition four_completions :: "completion list" where
  "four_completions = replicate 4 \<lparr>first_done = 0, in_time = True\<rparr>"


lemmas run_defs = loop_body_def next_operation_group_def ts_get_ready_def plan_active_def
  ts_is_active_def dispatch_def join_and_record_def record_result_def ts_done_def
  op_call_def self_value_def Sync_add_operations_def Sync_join_next_def Sync_running_def
  run_partial_def operation_wrapper_def update_info_def NODE_OUT_def NODE_DONE_def

lemma instance_eval:
  "instance_of two_operations = two_operations\<lparr>onward_operation_graph :=
     \<lparr>node2info = [(TypeKey FirstState, \<lparr>npredecessors = 0, successors = [TypeKey SecondState]\<rparr>),
                   (TypeKey SecondState, \<lparr>npredecessors = 1, successors = []\<rparr>)],
      ready_nodes = Some [TypeKey FirstState], npassedout = 0, nfinished = 0\<rparr>\<rparr>"
  by (simp add: instance_of_def two_operations_init)





subsection \<open>A run that an operation aborts\<close>







section \<open>Reading the result mapping\<close>

text \<open>Only state types whose node is done have a value.\<close>

definition states_ok :: "Plan \<Rightarrow> bool" where
  "states_ok self \<longleftrightarrow>
     (\<forall>T. map_of (onward_states self) T \<noteq> None \<longrightarrow>
          is_done (onward_operation_graph self) (TypeKey T))"

lemma loop_body_states:
  assumes "plan_ok self" and "states_ok self" and "loop_body c self = Inr self''"
  shows "states_ok self''"
    and "\<And>T v. get_state_value self T = Some v \<Longrightarrow> get_state_value self'' T = Some v"
    and "\<And>self' ex v T. next_operation_group self = Inr ([], self') \<Longrightarrow>
           join_next (onward_executor self') None c = (ex, Inr (v, TypeKey T)) \<Longrightarrow>
           get_state_value self'' T = Some v"
proof -
  from loop_body_next [OF assms(3)] obtain nodes self' where
    n: "next_operation_group self = Inr (nodes, self')" by blast
  with assms(3) have
    r: "(if nodes = [] then join_and_record c self' else dispatch self' nodes) = Inr self''"
    by (simp add: loop_body_def)
  note N = next_operation_group_step [OF assms(1) n]
  from N(6) have st: "onward_states self' = onward_states self" by auto
  have "states_ok self''
      \<and> (\<forall>T v. map_of (onward_states self) T = Some v \<longrightarrow> map_of (onward_states self'') T = Some v)
      \<and> (\<forall>ex v T. nodes = [] \<longrightarrow>
            join_next (onward_executor self') None c = (ex, Inr (v, TypeKey T)) \<longrightarrow>
            map_of (onward_states self'') T = Some v)"
  proof (cases "nodes = []")
    case False
    with r have "dispatch self' nodes = Inr self''" by simp
    from dispatch_Inr [OF this] obtain ex where "self'' = self'\<lparr>onward_executor := ex\<rparr>" by blast
    with assms(2) st N(5) False show ?thesis by (simp add: states_ok_def)
  next
    case True
    with r have j: "join_and_record c self' = Inr self''" by simp
    then obtain ex v k self1 g where
      jn: "join_next (onward_executor self') None c = (ex, Inr (v, k))"
      and rr: "record_result (self'\<lparr>onward_executor := ex\<rparr>) v k = Inr self1"
      and d: "ts_done (onward_operation_graph self') k = Inr g"
      and s: "self'' = self1\<lparr>onward_operation_graph := g\<rparr>"
      by (rule join_and_record_Inr)
    note R = record_result_Inr [OF rr]
    from N(1) have ok: "graph_ok (onward_operation_graph self')" by (simp add: plan_ok_def)
    note S = ts_done_status [OF ok d]
    have m: "map_of (onward_states self'') T =
               (if k = TypeKey T then Some v else map_of (onward_states self) T)" for T
      using R(4) [of T] s st by simp
    have old: "k \<noteq> TypeKey T" if "map_of (onward_states self) T \<noteq> None" for T
    proof
      assume "k = TypeKey T"
      moreover from assms(2) that have "is_done (onward_operation_graph self) (TypeKey T)"
        by (simp add: states_ok_def)
      ultimately show False using S(4) N(5) by simp
    qed
    have "states_ok self''"
      unfolding states_ok_def
    proof (intro allI impI)
      fix T assume a: "map_of (onward_states self'') T \<noteq> None"
      show "is_done (onward_operation_graph self'') (TypeKey T)"
      proof (cases "k = TypeKey T")
        case True
        with S(2) [of "TypeKey T"] s show ?thesis by simp
      next
        case False
        with a m [of T] have "map_of (onward_states self) T \<noteq> None" by simp
        with assms(2) have "is_done (onward_operation_graph self) (TypeKey T)"
          by (simp add: states_ok_def)
        with N(5) S(2) [of "TypeKey T"] s show ?thesis by simp
      qed
    qed
    moreover have "map_of (onward_states self'') T = Some v'"
      if "map_of (onward_states self) T = Some v'" for T v'
      using m [of T] old [of T] that by simp
    moreover have "map_of (onward_states self'') T = Some v'"
      if "join_next (onward_executor self') None c = (ex', Inr (v', TypeKey T))" for ex' v' T
      using that jn m [of T] by simp
    ultimately show ?thesis by blast
  qed
  then show "states_ok self''"
    and "\<And>T v. get_state_value self T = Some v \<Longrightarrow> get_state_value self'' T = Some v"
    and "\<And>self' ex v T. next_operation_group self = Inr ([], self') \<Longrightarrow>
           join_next (onward_executor self') None c = (ex, Inr (v, TypeKey T)) \<Longrightarrow>
           get_state_value self'' T = Some v"
    using n by (auto simp: get_state_value_def)
qed

lemma resume_for_ok:
  "plan_ok self \<Longrightarrow> states_ok self \<Longrightarrow> resume_for cs self = Inr at \<Longrightarrow>
   plan_ok at \<and> states_ok at
   \<and> (\<forall>T v. get_state_value self T = Some v \<longrightarrow> get_state_value at T = Some v)"
proof (induction cs arbitrary: self)
  case Nil
  then show ?case by simp
next
  case (Cons c cs)
  show ?case
  proof (cases "plan_active self")
    case (Inl e)
    with Cons.prems(3) show ?thesis by simp
  next
    case (Inr b)
    show ?thesis
    proof (cases b)
      case False
      with Inr Cons.prems show ?thesis by simp
    next
      case True
      show ?thesis
      proof (cases "loop_body c self")
        case (Inl e)
        with Inr True Cons.prems(3) show ?thesis by simp
      next
        case l: (Inr self'')
        with Inr True Cons.prems(3) have r: "resume_for cs self'' = Inr at" by simp
        from loop_body_next [OF l] obtain nodes self' where
          n: "next_operation_group self = Inr (nodes, self')" by blast
        note S = loop_body_step [OF Cons.prems(1) l n]
        note V = loop_body_states [OF Cons.prems(1,2) l]
        from Cons.IH [OF S(1) V(1) r] V(2) show ?thesis by blast
      qed
    qed
  qed
qed

text \<open>
  C9. \<^verbatim>\<open>get_state_value\<close> is \<^verbatim>\<open>dict.get\<close>: it returns a value or \<^verbatim>\<open>None\<close> and has
  no failure. In every state that the loop of \<^verbatim>\<open>start_or_resume\<close> reaches on the
  first instance of a class whose result mapping starts empty: it returns \<^verbatim>\<open>None\<close>
  for a state type exactly when the node of that type is not marked done in the graph, in
  particular for a type that is no node of the graph; when an iteration joins a value
  under the type, it returns that value afterwards; and a value it returns is still
  returned after any further iterations.
\<close>

theorem get_state_value_recorded_or_none:
  assumes "onward_operation_graph cls = new_sorter" and "onward_states cls = []"
    and "Plan_init cls = Inr self" and "resume_for cs self = Inr at"
  shows "(get_state_value at T = None \<longleftrightarrow> \<not> is_done (onward_operation_graph at) (TypeKey T))
    \<and> (TypeKey T \<notin> set (dict_keys (node2info (onward_operation_graph at))) \<longrightarrow>
          get_state_value at T = None)
    \<and> (\<forall>c at' self' ex v. loop_body c at = Inr at' \<longrightarrow>
          next_operation_group at = Inr ([], self') \<longrightarrow>
          join_next (onward_executor self') None c = (ex, Inr (v, TypeKey T)) \<longrightarrow>
          get_state_value at' T = Some v)
    \<and> (\<forall>cs' at' v. resume_for cs' at = Inr at' \<longrightarrow> get_state_value at T = Some v \<longrightarrow>
          get_state_value at' T = Some v)"
proof -
  note P = Plan_init_plan_ok [OF assms(1,3)]
  from Plan_init_ok(5) [OF assms(1,3)] assms(2) have "onward_states self = []" by auto
  then have s0: "states_ok self" by (simp add: states_ok_def)
  from resume_for_ok [OF P(1) s0 assms(4)] have ok: "plan_ok at" and st: "states_ok at" by simp_all
  have iff: "get_state_value at T = None \<longleftrightarrow> \<not> is_done (onward_operation_graph at) (TypeKey T)"
    using ok st by (auto simp: plan_ok_def states_ok_def get_state_value_def)
  have "\<not> is_done (onward_operation_graph at) (TypeKey T)"
    if "TypeKey T \<notin> set (dict_keys (node2info (onward_operation_graph at)))"
    using that by (auto simp: is_done_def dest: map_of_key)
  with iff have absent: "TypeKey T \<notin> set (dict_keys (node2info (onward_operation_graph at))) \<longrightarrow>
          get_state_value at T = None" by simp
  have rec: "\<forall>c at' self' ex v. loop_body c at = Inr at' \<longrightarrow>
          next_operation_group at = Inr ([], self') \<longrightarrow>
          join_next (onward_executor self') None c = (ex, Inr (v, TypeKey T)) \<longrightarrow>
          get_state_value at' T = Some v"
    using loop_body_states(3) [OF ok st] by blast
  have keep: "\<forall>cs' at' v. resume_for cs' at = Inr at' \<longrightarrow> get_state_value at T = Some v \<longrightarrow>
          get_state_value at' T = Some v"
    using resume_for_ok [OF ok st] by blast
  from iff absent rec keep show ?thesis by blast
qed

text \<open>The run of the two operations after its first join.\<close>

definition after_first_join :: Plan where
  "after_first_join =
     (case resume_for (take 2 four_completions) (instance_of two_operations) of
        Inl e \<Rightarrow> instance_of two_operations | Inr at \<Rightarrow> at)"

lemma after_first_join_eval:
  "resume_for (take 2 four_completions) (instance_of two_operations) = Inr after_first_join"
  "onward_states after_first_join = [(FirstState, Instance FirstState [] ''operation1'')]"
  "dict_keys (node2info (onward_operation_graph after_first_join))
     = [TypeKey FirstState, TypeKey SecondState]"
  by (simp_all add: after_first_join_def four_completions_def instance_eval two_operations_eval
      run_defs unit1_def op_id_def op_name_def fixture_defs numeral_eq_Suc dict_keys_def)

theorem get_state_value_recorded_or_none_witness:
  "get_state_value after_first_join FirstState = Some (Instance FirstState [] ''operation1'')
   \<and> is_done (onward_operation_graph after_first_join) (TypeKey FirstState)
   \<and> get_state_value after_first_join SecondState = None
   \<and> get_state_value after_first_join UnusedState = None"
proof -
  have 1: "onward_operation_graph two_operations = new_sorter" by (simp add: two_operations_eval)
  have 2: "onward_states two_operations = []" by (simp add: two_operations_eval)
  have 3: "Plan_init two_operations = Inr (instance_of two_operations)"
    by (simp add: instance_of_def two_operations_init)
  note T = get_state_value_recorded_or_none [OF 1 2 3 after_first_join_eval(1)]
  have "get_state_value after_first_join FirstState = Some (Instance FirstState [] ''operation1'')"
    by (simp add: get_state_value_def after_first_join_eval)
  moreover from this T [of FirstState]
  have "is_done (onward_operation_graph after_first_join) (TypeKey FirstState)" by simp
  moreover have "get_state_value after_first_join SecondState = None"
    by (simp add: get_state_value_def after_first_join_eval FirstState_def SecondState_def)
  moreover have "TypeKey UnusedState
      \<notin> set (dict_keys (node2info (onward_operation_graph after_first_join)))"
    by (simp add: after_first_join_eval FirstState_def SecondState_def UnusedState_def)
  with T [of UnusedState] have "get_state_value after_first_join UnusedState = None" by blast
  ultimately show ?thesis by simp
qed

end
